theory Spec2Isabelle
  imports Complex_Main "HOL-Library.Multiset" "HOL-Library.Log_Nat"
begin

section \<open>The shared store (state module)\<close>

text \<open>
  Store keys are strings. A stored value is a JavaScript value: primitives are compared
  by value and objects by reference (\<open>Obj\<close> carries the identity of the object), and \<open>NaN\<close>
  differs from every value, itself included. The store never computes with a number, so
  the numbers other than \<open>NaN\<close> are kept as integers.
\<close>

type_synonym key = string

datatype val = Undefined | Null | Bool bool | Num int | NaN | Str string | Obj nat

text \<open>The operator \<open>!==\<close>.\<close>

definition strict_neq :: "val \<Rightarrow> val \<Rightarrow> bool" where
  "strict_neq a b = (a \<noteq> b \<or> a = NaN)"

text \<open>
  A callback is a function object, known by its identity. What a callback does when it is
  invoked with \<open>(value, state)\<close> is, as far as the store can see, a sequence of calls back
  into the store, possibly cut short by an exception.
\<close>

type_synonym callback = nat

datatype action =
    SetState key val
  | Subscribe key callback
  | Unsubscribe key callback
  | Throw

type_synonym behaviour = "callback \<Rightarrow> val \<Rightarrow> (key \<Rightarrow> val) \<Rightarrow> action list"

text \<open>
  The trace records every call of \<open>notify\<close>, every invocation of a callback (with the key,
  the value passed, and the value stored for the key at that moment) and every line
  written by \<open>console.error\<close>.
\<close>

datatype event =
    Notified key val
  | Called callback key val val
  | ConsoleError key callback

text \<open>
  A \<open>Set\<close> keeps its elements in insertion order. Deleting an element leaves an empty slot
  behind, so that an iteration in progress keeps its position; \<open>forEach\<close> skips empty slots
  and also visits elements added while it runs.
\<close>

type_synonym callback_set = "callback option list"

definition set_has :: "callback_set \<Rightarrow> callback \<Rightarrow> bool" where
  "set_has es c = (Some c \<in> set es)"

definition set_add :: "callback_set \<Rightarrow> callback \<Rightarrow> callback_set" where
  "set_add es c = (if set_has es c then es else es @ [Some c])"

definition set_delete :: "callback_set \<Rightarrow> callback \<Rightarrow> callback_set" where
  "set_delete es c = map (\<lambda>e. if e = Some c then None else e) es"

text \<open>The elements of a set, in iteration order.\<close>

definition members :: "callback_set \<Rightarrow> callback list" where
  "members es = List.map_filter id es"

record store =
  state :: "key \<Rightarrow> val"
  listeners :: "key \<Rightarrow> callback_set option"
  trace :: "event list"

datatype outcome = Normal | Raised | Exhausted

definition getState :: "store \<Rightarrow> key \<Rightarrow> val" where
  "getState s key = state s key"

text \<open>
  The function returned by \<open>subscribe(key, callback)\<close>. It can only be called after that
  \<open>subscribe\<close>, when \<open>listeners.get(key)\<close> is a set; on \<open>undefined\<close> the method call would
  raise a TypeError.
\<close>

definition unsubscribe :: "key \<Rightarrow> callback \<Rightarrow> store \<Rightarrow> outcome \<times> store" where
  "unsubscribe key cb s =
     (case listeners s key of
        None \<Rightarrow> (Raised, s)
      | Some es \<Rightarrow> (Normal, s\<lparr>listeners := (listeners s)(key \<mapsto> set_delete es cb)\<rparr>))"

definition subscribe :: "key \<Rightarrow> callback \<Rightarrow> store \<Rightarrow> (store \<Rightarrow> outcome \<times> store) \<times> store" where
  "subscribe key cb s =
     (let ls = (if listeners s key = None then (listeners s)(key \<mapsto> []) else listeners s);
          ls' = ls(key \<mapsto> set_add (the (ls key)) cb)
      in (unsubscribe key cb, s\<lparr>listeners := ls'\<rparr>))"

text \<open>
  \<open>try { callback(value, state) } catch (error) { console.error(...) }\<close>: an exception of
  the body ends in the handler and the statement completes normally.
\<close>

definition try_catch :: "outcome \<times> store \<Rightarrow> (store \<Rightarrow> store) \<Rightarrow> outcome \<times> store" where
  "try_catch r handler = (case r of (Raised, s) \<Rightarrow> (Normal, handler s) | _ \<Rightarrow> r)"

definition console_error :: "key \<Rightarrow> callback \<Rightarrow> store \<Rightarrow> store" where
  "console_error key cb s = s\<lparr>trace := trace s @ [ConsoleError key cb]\<rparr>"

text \<open>
  Callbacks may call \<open>setState\<close> again, and nothing bounds the cascade, so the functions
  take fuel: every call uses one unit, and a run that needs more than it was given stops
  with \<open>Exhausted\<close> and the store it had reached. \<open>run\<close> executes the body of a callback,
  \<open>forEach\<close> is the iteration of \<open>notify\<close> over the listener set, from slot \<open>i\<close> on.
\<close>

function (sequential) run :: "nat \<Rightarrow> behaviour \<Rightarrow> action list \<Rightarrow> store \<Rightarrow> outcome \<times> store"
  and setState :: "nat \<Rightarrow> behaviour \<Rightarrow> key \<Rightarrow> val \<Rightarrow> store \<Rightarrow> outcome \<times> store"
  and notify :: "nat \<Rightarrow> behaviour \<Rightarrow> key \<Rightarrow> val \<Rightarrow> store \<Rightarrow> outcome \<times> store"
  and forEach :: "nat \<Rightarrow> behaviour \<Rightarrow> key \<Rightarrow> val \<Rightarrow> nat \<Rightarrow> store \<Rightarrow> outcome \<times> store"
where
  "run 0 B acts s = (Exhausted, s)"
| "run (Suc n) B [] s = (Normal, s)"
| "run (Suc n) B (Throw # rest) s = (Raised, s)"
| "run (Suc n) B (SetState key value # rest) s =
     (case setState n B key value s of
        (Normal, s') \<Rightarrow> run n B rest s'
      | r \<Rightarrow> r)"
| "run (Suc n) B (Subscribe key cb # rest) s = run n B rest (snd (subscribe key cb s))"
| "run (Suc n) B (Unsubscribe key cb # rest) s =
     (case unsubscribe key cb s of
        (Normal, s') \<Rightarrow> run n B rest s'
      | r \<Rightarrow> r)"
| "setState 0 B key value s = (Exhausted, s)"
| "setState (Suc n) B key value s =
     (let oldValue = state s key in
      if strict_neq oldValue value
      then notify n B key value (s\<lparr>state := (state s)(key := value)\<rparr>)
      else (Normal, s))"
| "notify 0 B key value s = (Exhausted, s)"
| "notify (Suc n) B key value s =
     (let s1 = s\<lparr>trace := trace s @ [Notified key value]\<rparr> in
      if listeners s1 key \<noteq> None then forEach n B key value 0 s1 else (Normal, s1))"
| "forEach 0 B key value i s = (Exhausted, s)"
| "forEach (Suc n) B key value i s =
     (case listeners s key of
        None \<Rightarrow> (Normal, s)
      | Some entries \<Rightarrow>
          if i < length entries then
            (case entries ! i of
               None \<Rightarrow> forEach n B key value (i + 1) s
             | Some cb \<Rightarrow>
                 (case try_catch
                         (run n B (B cb value (state s))
                            (s\<lparr>trace := trace s @ [Called cb key value (state s key)]\<rparr>))
                         (console_error key cb) of
                    (Normal, s') \<Rightarrow> forEach n B key value (i + 1) s'
                  | r \<Rightarrow> r))
          else (Normal, s))"
  by pat_completeness auto

termination
  by (relation "measure (\<lambda>x. case x of Inl (Inl (n, _)) \<Rightarrow> n | Inl (Inr (n, _)) \<Rightarrow> n
                                     | Inr (Inl (n, _)) \<Rightarrow> n | Inr (Inr (n, _)) \<Rightarrow> n)") auto

text \<open>Reading the trace: the invocations of one callback for one key, and the calls of \<open>notify\<close> for a key.\<close>

fun is_call :: "callback \<Rightarrow> key \<Rightarrow> event \<Rightarrow> bool" where
  "is_call c k (Called c' k' a st) = (c' = c \<and> k' = k)"
| "is_call c k _ = False"

fun is_notify :: "key \<Rightarrow> event \<Rightarrow> bool" where
  "is_notify k (Notified k' v) = (k' = k)"
| "is_notify k _ = False"

text \<open>An invocation for key \<open>k\<close> is current when the value passed is the value stored for \<open>k\<close>.\<close>

fun current :: "key \<Rightarrow> event \<Rightarrow> bool" where
  "current k (Called c k' a st) = (k' = k \<longrightarrow> a = st)"
| "current k _ = True"

text \<open>Conditions on what callbacks do: never writing key \<open>k\<close>, never subscribing \<open>c\<close> to \<open>k\<close>.\<close>

fun writes :: "key \<Rightarrow> action \<Rightarrow> bool" where
  "writes k (SetState k' v) = (k' = k)"
| "writes k _ = False"

definition never_writes :: "behaviour \<Rightarrow> key \<Rightarrow> bool" where
  "never_writes B k = (\<forall>c v st. \<forall>a \<in> set (B c v st). \<not> writes k a)"

definition never_subscribes :: "behaviour \<Rightarrow> key \<Rightarrow> callback \<Rightarrow> bool" where
  "never_subscribes B k c = (\<forall>c' v st. Subscribe k c \<notin> set (B c' v st))"

text \<open>A callback body that makes no call into the store: it returns, or throws at once.\<close>

fun quiet :: "action list \<Rightarrow> bool" where
  "quiet [] = True"
| "quiet (Throw # rest) = True"
| "quiet _ = False"

text \<open>What a pass of \<open>notify\<close> adds to the trace for one slot when the callbacks are quiet.\<close>

fun slot_trace :: "behaviour \<Rightarrow> key \<Rightarrow> val \<Rightarrow> (key \<Rightarrow> val) \<Rightarrow> callback option \<Rightarrow> event list" where
  "slot_trace B key value st None = []"
| "slot_trace B key value st (Some cb) =
     Called cb key value (st key) # (if B cb value st = [] then [] else [ConsoleError key cb])"

text \<open>
  Events of a pass of \<open>notify\<close> for key \<open>K\<close> with value \<open>v\<close> during which nobody writes \<open>K\<close>:
  no further \<open>notify\<close> for \<open>K\<close>, and every invocation for \<open>K\<close> passes \<open>v\<close> while \<open>v\<close> is stored.
\<close>

fun pass_event :: "key \<Rightarrow> val \<Rightarrow> event \<Rightarrow> bool" where
  "pass_event K v (Notified k w) = (k \<noteq> K)"
| "pass_event K v (Called c k a st) = (k = K \<longrightarrow> a = v \<and> st = v)"
| "pass_event K v (ConsoleError k c) = True"

definition frame :: "key \<Rightarrow> val \<Rightarrow> store \<Rightarrow> store \<Rightarrow> bool" where
  "frame K v s s' =
     (state s' K = state s K \<and> (\<exists>new. trace s' = trace s @ new \<and> list_all (pass_event K v) new))"

text \<open>The events a call added to the trace.\<close>

definition new_events :: "store \<Rightarrow> store \<Rightarrow> event list" where
  "new_events s s' = drop (length (trace s)) (trace s')"

definition subscribed :: "store \<Rightarrow> key \<Rightarrow> callback \<Rightarrow> bool" where
  "subscribed s k c = (case listeners s k of None \<Rightarrow> False | Some es \<Rightarrow> set_has es c)"

text \<open>The callbacks invoked for key \<open>k\<close>, in the order of invocation.\<close>

fun call_for :: "key \<Rightarrow> event \<Rightarrow> callback option" where
  "call_for k (Called c k' a st) = (if k' = k then Some c else None)"
| "call_for k _ = None"

definition calls_for :: "key \<Rightarrow> event list \<Rightarrow> callback list" where
  "calls_for k evs = List.map_filter (call_for k) evs"

text \<open>
  The part of the trace that concerns callback \<open>C\<close> on key \<open>K\<close> once it is unsubscribed:
  it stays unsubscribed and is not invoked for \<open>K\<close>.
\<close>

definition unsub_frame :: "key \<Rightarrow> callback \<Rightarrow> store \<Rightarrow> store \<Rightarrow> bool" where
  "unsub_frame K C s s' =
     (\<not> subscribed s' K C \<and> (\<exists>new. trace s' = trace s @ new \<and> filter (is_call C K) new = []))"

section \<open>JavaScript numbers\<close>

text \<open>
  A JavaScript number is an IEEE 754 double: zero, or a real \<open>m * 2^e\<close> whose significand
  \<open>m\<close> has at most 53 bits. Every arithmetic operation returns the exact result rounded to
  the nearest double, a tie going to the even significand, and a decimal literal such as
  \<open>0.3\<close> denotes the double nearest to it. \<open>expo x\<close> is the binary exponent of \<open>x\<close>
  (\<open>2^e \<le> |x| < 2^(e+1)\<close>), \<open>rne\<close> rounds a real to the nearest integer, ties to even,
  and \<open>double\<close> rounds a real to 53 significant bits.

  The exponent range is not bounded and there is no infinity. For the finite numbers that
  \<open>calculateSimilarity\<close> reads this makes no difference to its result: a difference of two
  doubles that lies in the subnormal range is exact, a quotient that underflows is
  subtracted from 1 and gives 1 either way, a difference that overflows is clipped to 1 by
  \<open>Math.min\<close> as is the huge finite number here, and every later intermediate result is 0
  or lies between \<open>2^-56\<close> and 2.
\<close>

definition expo :: "real \<Rightarrow> int" where
  "expo x = (if 1 \<le> \<bar>x\<bar> then bitlen \<lfloor>\<bar>x\<bar>\<rfloor> - 1 else - bitlen (\<lceil>1 / \<bar>x\<bar>\<rceil> - 1))"

definition rne :: "real \<Rightarrow> int" where
  "rne x = (let f = \<lfloor>x\<rfloor>; r = x - of_int f in
            if r < 1 / 2 then f else if 1 / 2 < r then f + 1 else if even f then f else f + 1)"

definition double :: "real \<Rightarrow> real" where
  "double x = (if x = 0 then 0
               else of_int (rne (x / 2 powi (expo x - 52))) * 2 powi (expo x - 52))"

text \<open>The operators \<open>+\<close>, \<open>-\<close>, \<open>*\<close> and \<open>/\<close> on two numbers.\<close>

definition fadd :: "real \<Rightarrow> real \<Rightarrow> real" where
  "fadd x y = double (x + y)"

definition fsub :: "real \<Rightarrow> real \<Rightarrow> real" where
  "fsub x y = double (x - y)"

definition fmul :: "real \<Rightarrow> real \<Rightarrow> real" where
  "fmul x y = double (x * y)"

definition fdiv :: "real \<Rightarrow> real \<Rightarrow> real" where
  "fdiv x y = double (x / y)"

section \<open>School records\<close>

text \<open>
  A school record as loaded from the dataset file. Only the fields read by the
  functions below are kept. A numeric field holds a finite JavaScript number and is given
  as the real it denotes; \<open>trope_count\<close> is an integer count and \<open>year\<close> is an integer
  or \<open>null\<close>.
\<close>

record school =
  school :: string
  conference :: string
  bpm :: real
  sec_duration :: real
  year :: "int option"
  trope_count :: int

definition isPurdue :: "school \<Rightarrow> bool" where
  "isPurdue s = (school s = ''Purdue'')"

section \<open>Similarity network (network.js)\<close>

text \<open>\<open>config.similarityThreshold\<close>, the literal \<open>0.7\<close>.\<close>

definition similarityThreshold :: real where
  "similarityThreshold = double 0.7"

text \<open>
  \<open>calculateSimilarity\<close>, one definition for each of its local constants. \<open>Math.abs\<close> and
  \<open>Math.min\<close> are exact; the subtractions, divisions, products and sums round.
\<close>

definition bpmDiff :: "school \<Rightarrow> school \<Rightarrow> real" where
  "bpmDiff s1 s2 = \<bar>fsub (bpm s1) (bpm s2)\<bar>"

definition durationDiff :: "school \<Rightarrow> school \<Rightarrow> real" where
  "durationDiff s1 s2 = \<bar>fsub (sec_duration s1) (sec_duration s2)\<bar>"

definition tropeDiff :: "school \<Rightarrow> school \<Rightarrow> real" where
  "tropeDiff s1 s2 = \<bar>fsub (real_of_int (trope_count s1)) (real_of_int (trope_count s2))\<bar>"

definition bpmSim :: "school \<Rightarrow> school \<Rightarrow> real" where
  "bpmSim s1 s2 = fsub 1 (min (fdiv (bpmDiff s1 s2) 100) 1)"

definition durationSim :: "school \<Rightarrow> school \<Rightarrow> real" where
  "durationSim s1 s2 = fsub 1 (min (fdiv (durationDiff s1 s2) 60) 1)"

definition tropeSim :: "school \<Rightarrow> school \<Rightarrow> real" where
  "tropeSim s1 s2 = fsub 1 (min (fdiv (tropeDiff s1 s2) 10) 1)"

definition confSim :: "school \<Rightarrow> school \<Rightarrow> real" where
  "confSim s1 s2 = (if conference s1 = conference s2 then double 0.3 else 0)"

definition calculateSimilarity :: "school \<Rightarrow> school \<Rightarrow> real" where
  "calculateSimilarity s1 s2 =
     fdiv (fadd (fadd (fadd (fmul (bpmSim s1 s2) (double 0.3))
                            (fmul (durationSim s1 s2) (double 0.2)))
                      (fmul (tropeSim s1 s2) (double 0.2)))
                (confSim s1 s2))
          (double 0.7)"

text \<open>
  The same score as the specification writes it, in exact real arithmetic, to be compared
  with what the code computes.
\<close>

definition bpmSim_exact :: "school \<Rightarrow> school \<Rightarrow> real" where
  "bpmSim_exact s1 s2 = 1 - min (\<bar>bpm s1 - bpm s2\<bar> / 100) 1"

definition durationSim_exact :: "school \<Rightarrow> school \<Rightarrow> real" where
  "durationSim_exact s1 s2 = 1 - min (\<bar>sec_duration s1 - sec_duration s2\<bar> / 60) 1"

definition tropeSim_exact :: "school \<Rightarrow> school \<Rightarrow> real" where
  "tropeSim_exact s1 s2
     = 1 - min (\<bar>real_of_int (trope_count s1) - real_of_int (trope_count s2)\<bar> / 10) 1"

definition confSim_exact :: "school \<Rightarrow> school \<Rightarrow> real" where
  "confSim_exact s1 s2 = (if conference s1 = conference s2 then 0.3 else 0)"

definition score_exact :: "school \<Rightarrow> school \<Rightarrow> real" where
  "score_exact s1 s2 =
     (bpmSim_exact s1 s2 * 0.3 + durationSim_exact s1 s2 * 0.2 + tropeSim_exact s1 s2 * 0.2
      + confSim_exact s1 s2) / 0.7"

record link =
  source :: string
  target :: string
  similarity :: real

text \<open>The two nested index iterations of \<open>prepareData\<close>; \<open>links\<close> is the array being filled.\<close>

function inner_loop :: "school list \<Rightarrow> nat \<Rightarrow> nat \<Rightarrow> link list \<Rightarrow> link list" where
  "inner_loop schools i j links =
     (if j < length schools then
        let sim = calculateSimilarity (schools ! i) (schools ! j) in
        inner_loop schools i (j + 1)
          (if sim > similarityThreshold
           then links @ [\<lparr>source = school (schools ! i), target = school (schools ! j), similarity = sim\<rparr>]
           else links)
      else links)"
  by pat_completeness auto
termination
  by (relation "measure (\<lambda>(schools, i, j, links). length schools - j)") auto

function outer_loop :: "school list \<Rightarrow> nat \<Rightarrow> link list \<Rightarrow> link list" where
  "outer_loop schools i links =
     (if i < length schools then outer_loop schools (i + 1) (inner_loop schools i (i + 1) links)
      else links)"
  by pat_completeness auto
termination
  by (relation "measure (\<lambda>(schools, i, links). length schools - i)") auto

declare inner_loop.simps [simp del] outer_loop.simps [simp del]

definition prepareData :: "school list \<Rightarrow> link list" where
  "prepareData schools = outer_loop schools 0 []"

text \<open>Two schools are joined when a link between their names was pushed, in either direction.\<close>

definition edge_between :: "link list \<Rightarrow> school \<Rightarrow> school \<Rightarrow> bool" where
  "edge_between links s1 s2 =
     (\<exists>l \<in> set links. (source l = school s1 \<and> target l = school s2) \<or>
                       (source l = school s2 \<and> target l = school s1))"

section \<open>Marker radii (map.js, scatter, hero map)\<close>

record radius_config =
  baseRadius :: real
  radiusMultiplier :: real
  purdueRadius :: real

definition USAMap_config :: radius_config where
  "USAMap_config = \<lparr>baseRadius = 5, radiusMultiplier = 1.5, purdueRadius = 12\<rparr>"

definition ScatterPlot_config :: radius_config where
  "ScatterPlot_config = \<lparr>baseRadius = 4, radiusMultiplier = 1, purdueRadius = 10\<rparr>"

definition EnergyGalaxy_config :: radius_config where
  "EnergyGalaxy_config = \<lparr>baseRadius = 6, radiusMultiplier = 1.2, purdueRadius = 29\<rparr>"

text \<open>\<open>USAMap.getRadius\<close> and \<open>ScatterPlot.getRadius\<close> have the same body and read their own config.\<close>

definition getRadius :: "radius_config \<Rightarrow> school \<Rightarrow> real" where
  "getRadius config s =
     (if isPurdue s then purdueRadius config
      else baseRadius config + real_of_int (trope_count s) * radiusMultiplier config)"

definition USAMap_getRadius :: "school \<Rightarrow> real" where
  "USAMap_getRadius s = getRadius USAMap_config s"

definition ScatterPlot_getRadius :: "school \<Rightarrow> real" where
  "ScatterPlot_getRadius s = getRadius ScatterPlot_config s"

text \<open>The \<open>size\<close> field computed for each marker by \<open>EnergyGalaxy.createMarkers\<close>.\<close>

definition EnergyGalaxy_size :: "school \<Rightarrow> real" where
  "EnergyGalaxy_size s =
     (if isPurdue s then purdueRadius EnergyGalaxy_config
      else baseRadius EnergyGalaxy_config
           + real_of_int (trope_count s) * radiusMultiplier EnergyGalaxy_config)"

section \<open>Conference filter of the views\<close>

text \<open>
  Each \<open>filterByConference\<close> sets one opacity per bound school; the function below is the
  callback given to \<open>style('opacity', ...)\<close> or \<open>attr('opacity', ...)\<close> in that view. The
  source's parameter \<open>conference\<close> is written \<open>conf\<close> here, \<open>conference\<close> being the record field.
\<close>

definition USAMap_filterByConference :: "string \<Rightarrow> school \<Rightarrow> real" where
  "USAMap_filterByConference conf d =
     (let isAll = (conf = ''all'') in
      if isAll \<or> conference d = conf then 1 else 0.15)"

definition ScatterPlot_filterByConference :: "string \<Rightarrow> school \<Rightarrow> real" where
  "ScatterPlot_filterByConference conf d =
     (let isAll = (conf = ''all'') in
      if isAll \<or> conference d = conf then 0.85 else 0.15)"

definition TropeMatrix_filterByConference :: "string \<Rightarrow> school \<Rightarrow> real" where
  "TropeMatrix_filterByConference conf d =
     (let isAll = (conf = ''all'') in
      if isAll \<or> conference d = conf then 1 else 0.2)"

text \<open>Node opacity of the network graph (\<open>d.school\<close> is the node's school).\<close>

definition NetworkGraph_filterByConference :: "string \<Rightarrow> school \<Rightarrow> real" where
  "NetworkGraph_filterByConference conf d =
     (let isAll = (conf = ''all'') in
      if isAll \<or> conference d = conf then 0.9 else 0.2)"

definition lineOpacity :: real where
  "lineOpacity = 0.3"

definition ParallelCoordinates_filterByConference :: "string \<Rightarrow> school \<Rightarrow> real" where
  "ParallelCoordinates_filterByConference conf d =
     (let isAll = (conf = ''all'') in
      if isPurdue d then 0.8
      else if isAll \<or> conference d = conf then lineOpacity
      else 0.1)"

text \<open>Stroke opacity of the school arcs of the rose chart.\<close>

definition FightSongClock_filterByConference :: "string \<Rightarrow> school \<Rightarrow> real" where
  "FightSongClock_filterByConference conf d =
     (let isAll = (conf = ''all'') in
      if isPurdue d then 1
      else if isAll \<or> conference d = conf then 0.75
      else 0.15)"

text \<open>
  The hero map keeps the filter in a field and dims in its drawing loop: \<open>drawMarkers\<close>
  skips the featured marker, which is drawn separately, and computes this alpha for every
  other marker. An empty filter counts as 'all'.
\<close>

definition EnergyGalaxy_drawMarkers :: "string \<Rightarrow> bool \<Rightarrow> school \<Rightarrow> real option" where
  "EnergyGalaxy_drawMarkers activeConference isHovered d =
     (let activeConf = (if activeConference = [] then ''all'' else activeConference) in
      if isPurdue d then None
      else (let isActive = (activeConf = ''all'' \<or> conference d = activeConf) in
            Some (if isActive then (if isHovered then 1 else 0.85) else 0.15)))"

text \<open>
  The radar view has one chart per conference; its listener sets the opacity of the chart
  of conference \<open>conf\<close>.
\<close>

definition RadarChart_listener :: "string \<Rightarrow> string \<Rightarrow> real" where
  "RadarChart_listener activeConference conf =
     (if activeConference = ''all'' then 1 else if conf = activeConference then 1 else 0.4)"

datatype view = USAMap | ScatterPlot | TropeMatrix | NetworkGraph | ParallelCoordinates | FightSongClock

fun filterByConference :: "view \<Rightarrow> string \<Rightarrow> school \<Rightarrow> real" where
  "filterByConference USAMap = USAMap_filterByConference"
| "filterByConference ScatterPlot = ScatterPlot_filterByConference"
| "filterByConference TropeMatrix = TropeMatrix_filterByConference"
| "filterByConference NetworkGraph = NetworkGraph_filterByConference"
| "filterByConference ParallelCoordinates = ParallelCoordinates_filterByConference"
| "filterByConference FightSongClock = FightSongClock_filterByConference"

text \<open>The opacity each view gives a matching element, and the one it gives a dimmed element.\<close>

fun fullOpacity :: "view \<Rightarrow> real" where
  "fullOpacity USAMap = 1"
| "fullOpacity ScatterPlot = 0.85"
| "fullOpacity TropeMatrix = 1"
| "fullOpacity NetworkGraph = 0.9"
| "fullOpacity ParallelCoordinates = lineOpacity"
| "fullOpacity FightSongClock = 0.75"

fun dimmedOpacity :: "view \<Rightarrow> real" where
  "dimmedOpacity USAMap = 0.15"
| "dimmedOpacity ScatterPlot = 0.15"
| "dimmedOpacity TropeMatrix = 0.2"
| "dimmedOpacity NetworkGraph = 0.2"
| "dimmedOpacity ParallelCoordinates = 0.1"
| "dimmedOpacity FightSongClock = 0.15"

text \<open>The fixed opacity the two guarded views give the featured school.\<close>

fun featuredOpacity :: "view \<Rightarrow> real option" where
  "featuredOpacity ParallelCoordinates = Some 0.8"
| "featuredOpacity FightSongClock = Some 1"
| "featuredOpacity _ = None"

section \<open>Sorting schools (utils, matrix.js)\<close>

text \<open>
  \<open>Array.prototype.sort(comparefn)\<close> is supplied by the JavaScript runtime. It is modelled
  as insertion sort: the elements are taken from left to right, and each one is placed
  before the first already placed element \<open>e\<close> with \<open>comparefn(x, e) < 0\<close>, or at the end
  when there is none. For a consistent comparator this is the stable sorted order that
  ECMAScript prescribes.
\<close>

fun insert_js :: "('a \<Rightarrow> 'a \<Rightarrow> real) \<Rightarrow> 'a \<Rightarrow> 'a list \<Rightarrow> 'a list" where
  "insert_js comparefn x [] = [x]"
| "insert_js comparefn x (e # es) =
     (if comparefn x e < 0 then x # e # es else e # insert_js comparefn x es)"

definition sort_js :: "('a \<Rightarrow> 'a \<Rightarrow> real) \<Rightarrow> 'a list \<Rightarrow> 'a list" where
  "sort_js comparefn xs = foldl (\<lambda>placed x. insert_js comparefn x placed) [] xs"

text \<open>
  Arrays are mutable objects: the heap is the list of all arrays allocated so far and a
  reference is an index into it. \<open>[...a]\<close> allocates a copy; \<open>a.sort(f)\<close> overwrites \<open>a\<close>.
\<close>

type_synonym ref = nat
type_synonym heap = "school list list"

definition spread :: "heap \<Rightarrow> ref \<Rightarrow> ref \<times> heap" where
  "spread h a = (length h, h @ [h ! a])"

definition array_sort :: "(school \<Rightarrow> school \<Rightarrow> real) \<Rightarrow> heap \<Rightarrow> ref \<Rightarrow> heap" where
  "array_sort comparefn h a = h[a := sort_js comparefn (h ! a)]"

text \<open>
  The four comparators of \<open>sortSchools\<close>. \<open>String.prototype.localeCompare\<close> depends on the
  runtime's locale and is the parameter \<open>localeCompare\<close>. The comparator for 'year' answers
  1 for two records without a year, whichever comes first.
\<close>

definition compare_conference :: "(string \<Rightarrow> string \<Rightarrow> real) \<Rightarrow> school \<Rightarrow> school \<Rightarrow> real" where
  "compare_conference localeCompare a b =
     (let confCompare = localeCompare (conference a) (conference b) in
      if confCompare \<noteq> 0 then confCompare else localeCompare (school a) (school b))"

definition compare_trope_count :: "school \<Rightarrow> school \<Rightarrow> real" where
  "compare_trope_count a b = real_of_int (trope_count b - trope_count a)"

definition compare_year :: "school \<Rightarrow> school \<Rightarrow> real" where
  "compare_year a b =
     (case year a of None \<Rightarrow> 1
      | Some ya \<Rightarrow> (case year b of None \<Rightarrow> -1 | Some yb \<Rightarrow> real_of_int (ya - yb)))"

definition compare_bpm :: "school \<Rightarrow> school \<Rightarrow> real" where
  "compare_bpm a b = bpm b - bpm a"

text \<open>The order of founding years in which \<open>null\<close> is the greatest element.\<close>

definition year_le :: "school \<Rightarrow> school \<Rightarrow> bool" where
  "year_le a b = (case year b of None \<Rightarrow> True
                  | Some yb \<Rightarrow> (case year a of None \<Rightarrow> False | Some ya \<Rightarrow> ya \<le> yb))"

definition sortSchools ::
  "(string \<Rightarrow> string \<Rightarrow> real) \<Rightarrow> heap \<Rightarrow> ref \<Rightarrow> string \<Rightarrow> ref \<times> heap" where
  "sortSchools localeCompare h schools sortBy =
     (let (sorted, h1) = spread h schools in
      if sortBy = ''conference'' then (sorted, array_sort (compare_conference localeCompare) h1 sorted)
      else if sortBy = ''trope_count'' then (sorted, array_sort compare_trope_count h1 sorted)
      else if sortBy = ''year'' then (sorted, array_sort compare_year h1 sorted)
      else if sortBy = ''bpm'' then (sorted, array_sort compare_bpm h1 sorted)
      else (sorted, h1))"

text \<open>
  The matrix view keeps the reference to the schools it was built from, the current sort
  order and the reference to the sorted array; column \<open>i\<close> of the sorted array is drawn at
  \<open>i * (cellWidth + cellGap)\<close>.
\<close>

record matrix =
  schools :: ref
  sortedSchools :: ref
  currentSort :: string

definition resort ::
  "(string \<Rightarrow> string \<Rightarrow> real) \<Rightarrow> heap \<Rightarrow> matrix \<Rightarrow> string \<Rightarrow> matrix \<times> heap" where
  "resort localeCompare h m sortBy =
     (let (sorted, h') = sortSchools localeCompare h (schools m) sortBy in
      (m\<lparr>currentSort := sortBy, sortedSchools := sorted\<rparr>, h'))"

text \<open>The schools of the columns of the matrix, from left to right.\<close>

definition columns :: "heap \<Rightarrow> matrix \<Rightarrow> school list" where
  "columns h m = h ! sortedSchools m"

section \<open>Example inputs\<close>

definition ex_purdue :: school where
  "ex_purdue = \<lparr>school = ''Purdue'', conference = ''Big Ten'', bpm = 120, sec_duration = 60,
                 year = Some 1912, trope_count = 4\<rparr>"

definition ex_ohio :: school where
  "ex_ohio = \<lparr>school = ''Ohio State'', conference = ''Big Ten'', bpm = 120, sec_duration = 60,
               year = None, trope_count = 5\<rparr>"

definition ex_indiana :: school where
  "ex_indiana = \<lparr>school = ''Indiana'', conference = ''Big Ten'', bpm = 120, sec_duration = 60,
                  year = None, trope_count = 4\<rparr>"

definition ex_alabama :: school where
  "ex_alabama = \<lparr>school = ''Alabama'', conference = ''SEC'', bpm = 70, sec_duration = 150,
                  year = Some 1926, trope_count = 8\<rparr>"

definition ex_schools :: "school list" where
  "ex_schools = [ex_purdue, ex_ohio, ex_alabama, ex_indiana]"

definition ex_network :: "school list" where
  "ex_network = [ex_purdue, ex_indiana, ex_alabama]"

text \<open>Two schools of different conferences whose exact score is 7/10.\<close>

definition ex_iowa :: school where
  "ex_iowa = \<lparr>school = ''Iowa'', conference = ''Big Ten'', bpm = 120, sec_duration = 60,
               year = None, trope_count = 0\<rparr>"

definition ex_florida :: school where
  "ex_florida = \<lparr>school = ''Florida'', conference = ''SEC'', bpm = 120, sec_duration = 75,
                  year = None, trope_count = 8\<rparr>"

definition ex_boundary :: "school list" where
  "ex_boundary = [ex_iowa, ex_florida]"

definition ex_heap :: heap where
  "ex_heap = [ex_schools]"

definition ex_matrix :: matrix where
  "ex_matrix = \<lparr>schools = 0, sortedSchools = 0, currentSort = ''conference''\<rparr>"

text \<open>
  A store with two listeners on the conference filter and one on the selected school, and
  four ways the listeners may behave.
\<close>

definition ex_store :: store where
  "ex_store = \<lparr>state = (\<lambda>k. Undefined)(''activeConference'' := Str ''all'',
                                          ''selectedSchool'' := Obj 7),
               listeners = Map.empty(''activeConference'' \<mapsto> [Some 0, Some 1],
                                     ''selectedSchool'' \<mapsto> [Some 2]),
               trace = []\<rparr>"

definition ex_observers :: behaviour where
  "ex_observers c v st = []"

definition ex_thrower :: behaviour where
  "ex_thrower c v st = (if c = 0 then [Throw] else [])"

definition ex_reentrant :: behaviour where
  "ex_reentrant c v st =
     (if c = 0 \<and> v = Str ''SEC'' then [SetState ''activeConference'' (Str ''all'')] else [])"

definition ex_cascade :: behaviour where
  "ex_cascade c v st = (if c = 0 then [SetState ''selectedSchool'' Null] else [])"

text \<open>The example store after listener 0 has subscribed again and then called its unsubscribe function.\<close>

definition ex_unsubscribed :: store where
  "ex_unsubscribed =
     snd (fst (subscribe ''activeConference'' 0 ex_store) (snd (subscribe ''activeConference'' 0 ex_store)))"

section \<open>The store: runs in which no callback writes a key\<close>

lemma frame_refl: "frame K v s s"
  by (simp add: frame_def)

lemma frame_trans:
  assumes "frame K v s s1" "frame K v s1 s2"
  shows "frame K v s s2"
proof -
  from assms(1) obtain n1 where 1: "state s1 K = state s K" "trace s1 = trace s @ n1"
    "list_all (pass_event K v) n1"
    unfolding frame_def by blast
  from assms(2) obtain n2 where 2: "state s2 K = state s1 K" "trace s2 = trace s1 @ n2"
    "list_all (pass_event K v) n2"
    unfolding frame_def by blast
  have "trace s2 = trace s @ (n1 @ n2)" "list_all (pass_event K v) (n1 @ n2)"
    using 1 2 by simp_all
  then show ?thesis
    unfolding frame_def using 1 2 by metis
qed

lemma frame_log: "pass_event K v e \<Longrightarrow> frame K v s (s\<lparr>trace := trace s @ [e]\<rparr>)"
  by (simp add: frame_def)

lemma frame_listeners: "frame K v s (s\<lparr>listeners := l\<rparr>)"
  by (simp add: frame_def)

lemma frame_state: "k \<noteq> K \<Longrightarrow> frame K v s (s\<lparr>state := (state s)(k := w)\<rparr>)"
  by (simp add: frame_def)

lemma frame_subscribe: "frame K v s (snd (subscribe k c s))"
  by (simp add: subscribe_def Let_def frame_listeners)

lemma frame_unsubscribe: "frame K v s (snd (unsubscribe k c s))"
  by (simp add: unsubscribe_def frame_listeners frame_refl split: option.splits)

lemma unsubscribe_outcome: "fst (unsubscribe k c s) \<noteq> Normal \<Longrightarrow> snd (unsubscribe k c s) = s"
  by (simp add: unsubscribe_def split: option.splits)

lemma frame_try_catch:
  "frame K v s (snd (try_catch r (console_error k c)))" if "frame K v s (snd r)"
proof (cases r)
  case (Pair out s1)
  show ?thesis
  proof (cases out)
    case Raised
    have "frame K v s1 (s1\<lparr>trace := trace s1 @ [ConsoleError k c]\<rparr>)"
      by (simp add: frame_log)
    with that show ?thesis
      using Pair Raised by (auto simp: try_catch_def console_error_def intro: frame_trans)
  qed (use that Pair in \<open>auto simp: try_catch_def\<close>)
qed

lemma frame_all:
  assumes nw: "never_writes B K"
  shows "(\<forall>acts s. (\<forall>a \<in> set acts. \<not> writes K a) \<longrightarrow> frame K v s (snd (run n B acts s)))
       \<and> (\<forall>k w s. k \<noteq> K \<longrightarrow> frame K v s (snd (setState n B k w s)))
       \<and> (\<forall>k w s. k \<noteq> K \<longrightarrow> frame K v s (snd (notify n B k w s)))
       \<and> (\<forall>k w i s. (k \<noteq> K \<or> (w = v \<and> state s K = v))
                      \<longrightarrow> frame K v s (snd (forEach n B k w i s)))"
proof (induction n)
  case 0
  show ?case by (simp add: frame_refl)
next
  case (Suc n)
  note IH = Suc.IH
  have IHrun: "frame K v s (snd (run n B acts s))" if "\<forall>a \<in> set acts. \<not> writes K a" for acts s
    using IH that by simp
  have IHset: "frame K v s (snd (setState n B k w s))" if "k \<noteq> K" for k w s
    using IH that by simp
  have IHnot: "frame K v s (snd (notify n B k w s))" if "k \<noteq> K" for k w s
    using IH that by simp
  have IHfor: "frame K v s (snd (forEach n B k w i s))"
    if "k \<noteq> K \<or> (w = v \<and> state s K = v)" for k w i s
    using IH that by simp
  have run: "frame K v s (snd (run (Suc n) B acts s))" if "\<forall>a \<in> set acts. \<not> writes K a" for acts s
  proof (cases acts)
    case Nil
    then show ?thesis by (simp add: frame_refl)
  next
    case (Cons a rest)
    have rest: "\<forall>a \<in> set rest. \<not> writes K a" using that Cons by simp
    show ?thesis
    proof (cases a)
      case (SetState k w)
      then have kK: "k \<noteq> K" using that Cons by auto
      obtain r s1 where r: "setState n B k w s = (r, s1)" by (cases "setState n B k w s")
      have f1: "frame K v s s1" using IHset [OF kK, where s = s and w = w] r by simp
      show ?thesis
      proof (cases "r = Normal")
        case True
        then have "run (Suc n) B acts s = run n B rest s1" using Cons SetState r by simp
        then show ?thesis using frame_trans [OF f1 IHrun [OF rest]] by simp
      next
        case False
        then have "run (Suc n) B acts s = (r, s1)" using Cons SetState r by (cases r) simp_all
        then show ?thesis using f1 by simp
      qed
    next
      case (Subscribe k c)
      then have "run (Suc n) B acts s = run n B rest (snd (subscribe k c s))" using Cons by simp
      then show ?thesis using frame_trans [OF frame_subscribe IHrun [OF rest]] by simp
    next
      case (Unsubscribe k c)
      obtain r s1 where r: "unsubscribe k c s = (r, s1)" by (cases "unsubscribe k c s")
      have f1: "frame K v s s1" using frame_unsubscribe [of K v s k c] r by simp
      show ?thesis
      proof (cases "r = Normal")
        case True
        then have "run (Suc n) B acts s = run n B rest s1" using Cons Unsubscribe r by simp
        then show ?thesis using frame_trans [OF f1 IHrun [OF rest]] by simp
      next
        case False
        then have "run (Suc n) B acts s = (r, s1)" using Cons Unsubscribe r by (cases r) simp_all
        then show ?thesis using f1 by simp
      qed
    next
      case Throw
      then show ?thesis using Cons by (simp add: frame_refl)
    qed
  qed
  have setS: "frame K v s (snd (setState (Suc n) B k w s))" if "k \<noteq> K" for k w s
  proof (cases "strict_neq (state s k) w")
    case True
    then have "setState (Suc n) B k w s = notify n B k w (s\<lparr>state := (state s)(k := w)\<rparr>)"
      by simp
    then show ?thesis using frame_trans [OF frame_state [OF that] IHnot [OF that]] by simp
  next
    case False
    then show ?thesis by (simp add: frame_refl)
  qed
  have noti: "frame K v s (snd (notify (Suc n) B k w s))" if "k \<noteq> K" for k w s
  proof -
    let ?s1 = "s\<lparr>trace := trace s @ [Notified k w]\<rparr>"
    have f1: "frame K v s ?s1"
      using that by (simp add: frame_log)
    show ?thesis
    proof (cases "listeners s k")
      case None
      then show ?thesis using f1 by simp
    next
      case (Some es)
      then have "notify (Suc n) B k w s = forEach n B k w 0 ?s1" by simp
      moreover have "frame K v ?s1 (snd (forEach n B k w 0 ?s1))"
        using that by (intro IHfor) simp
      ultimately show ?thesis using frame_trans [OF f1] by simp
    qed
  qed
  have fore: "frame K v s (snd (forEach (Suc n) B k w i s))"
    if cond: "k \<noteq> K \<or> (w = v \<and> state s K = v)" for k w i s
  proof (cases "listeners s k")
    case None
    then show ?thesis by (simp add: frame_refl)
  next
    case (Some entries)
    note es = this
    show ?thesis
    proof (cases "i < length entries")
      case False
      then show ?thesis using es by (simp add: frame_refl)
    next
      case True
      show ?thesis
      proof (cases "entries ! i")
        case None
        then have "forEach (Suc n) B k w i s = forEach n B k w (i + 1) s" using es True by simp
        then show ?thesis using IHfor [OF cond] by simp
      next
        case (Some cb)
        let ?s0 = "s\<lparr>trace := trace s @ [Called cb k w (state s k)]\<rparr>"
        let ?r = "run n B (B cb w (state s)) ?s0"
        have e: "pass_event K v (Called cb k w (state s k))" using cond by auto
        have f0: "frame K v s ?s0" using e by (rule frame_log)
        have body: "\<forall>a \<in> set (B cb w (state s)). \<not> writes K a"
          using nw by (simp add: never_writes_def)
        have f1: "frame K v s (snd ?r)"
          using f0 IHrun [OF body] by (rule frame_trans)
        then have f2: "frame K v s (snd (try_catch ?r (console_error k cb)))"
          by (rule frame_try_catch)
        obtain r s2 where r: "try_catch ?r (console_error k cb) = (r, s2)"
          by (cases "try_catch ?r (console_error k cb)")
        have f3: "frame K v s s2" using f2 r by simp
        then have cond2: "k \<noteq> K \<or> (w = v \<and> state s2 K = v)"
          using cond by (auto simp: frame_def)
        show ?thesis
        proof (cases "r = Normal")
          case True
          then have "forEach (Suc n) B k w i s = forEach n B k w (i + 1) s2"
            using es \<open>i < length entries\<close> Some r by simp
          then show ?thesis using frame_trans [OF f3 IHfor [OF cond2]] by simp
        next
          case False
          then have "forEach (Suc n) B k w i s = (r, s2)"
            using es \<open>i < length entries\<close> Some r by (cases r) simp_all
          then show ?thesis using f3 by simp
        qed
      qed
    qed
  qed
  show ?case by (intro conjI allI impI run setS noti fore)
qed

subsection \<open>No exception leaves the store\<close>

lemma try_catch_not_Raised: "fst (try_catch r h) \<noteq> Raised"
  by (cases r; cases "fst r") (auto simp: try_catch_def)

lemma no_raise_all:
  "fst (setState n B k w s) \<noteq> Raised \<and> fst (notify n B k w s) \<noteq> Raised
   \<and> fst (forEach n B k w i s) \<noteq> Raised"
proof (induction n arbitrary: k w i s)
  case 0
  show ?case by simp
next
  case (Suc n)
  have setS: "fst (setState (Suc n) B k w s) \<noteq> Raised"
    using Suc [where k = k and w = w and s = "s\<lparr>state := (state s)(k := w)\<rparr>"] by (simp add: Let_def)
  have noti: "fst (notify (Suc n) B k w s) \<noteq> Raised"
    using Suc [where k = k and w = w and i = 0 and s = "s\<lparr>trace := trace s @ [Notified k w]\<rparr>"] by (simp add: Let_def)
  have fore: "fst (forEach (Suc n) B k w i s) \<noteq> Raised"
  proof (cases "listeners s k")
    case None
    then show ?thesis by simp
  next
    case (Some entries)
    note es = this
    show ?thesis
    proof (cases "i < length entries")
      case False
      then show ?thesis using es by simp
    next
      case True
      show ?thesis
      proof (cases "entries ! i")
        case None
        then show ?thesis using es True Suc [where k = k and w = w and i = "i + 1" and s = s] by simp
      next
        case (Some cb)
        let ?t = "try_catch (run n B (B cb w (state s))
                    (s\<lparr>trace := trace s @ [Called cb k w (state s k)]\<rparr>)) (console_error k cb)"
        obtain r s2 where r: "?t = (r, s2)" by (cases ?t)
        have nr: "r \<noteq> Raised" using try_catch_not_Raised [of _ "console_error k cb"] r
          by (metis fst_conv)
        show ?thesis
        proof (cases "r = Normal")
          case True
          then have "forEach (Suc n) B k w i s = forEach n B k w (i + 1) s2"
            using es \<open>i < length entries\<close> Some r by simp
          then show ?thesis using Suc [where k = k and w = w and i = "i + 1" and s = s2] by simp
        next
          case False
          then have "forEach (Suc n) B k w i s = (r, s2)"
            using es \<open>i < length entries\<close> Some r by (cases r) simp_all
          then show ?thesis using nr by simp
        qed
      qed
    qed
  qed
  show ?case by (intro conjI setS noti fore)
qed

subsection \<open>Quiet listeners\<close>

lemma run_quiet:
  "quiet acts \<Longrightarrow> run (Suc n) B acts s = (if acts = [] then Normal else Raised, s)"
  by (cases acts rule: quiet.cases) simp_all

lemma members_Cons: "members (e # es) = (case e of None \<Rightarrow> members es | Some c \<Rightarrow> c # members es)"
  by (simp add: members_def List.map_filter_simps split: option.splits)

lemma set_members: "set (members es) = {c. Some c \<in> set es}"
  by (induction es) (auto simp: members_Cons members_def List.map_filter_simps split: option.splits)

lemma forEach_quiet:
  assumes "listeners s K = Some es"
    and "\<forall>c \<in> set (members es). quiet (B c v (state s))"
    and "length es - i < n"
  shows "forEach n B K v i s =
           (Normal, s\<lparr>trace := trace s @ concat (map (slot_trace B K v (state s)) (drop i es))\<rparr>)"
  using assms
proof (induction n arbitrary: i s)
  case 0
  then show ?case by simp
next
  case (Suc n)
  note es = Suc.prems(1) and q = Suc.prems(2) and fuel = Suc.prems(3)
  show ?case
  proof (cases "i < length es")
    case False
    then show ?thesis using es by simp
  next
    case True
    then have n: "length es - (i + 1) < n" using fuel by simp
    have dr: "drop i es = es ! i # drop (i + 1) es"
      using True by (simp add: Cons_nth_drop_Suc)
    show ?thesis
    proof (cases "es ! i")
      case None
      then have "forEach (Suc n) B K v i s = forEach n B K v (i + 1) s" using es True by simp
      also have "\<dots> = (Normal, s\<lparr>trace := trace s @ concat (map (slot_trace B K v (state s)) (drop (i + 1) es))\<rparr>)"
        using es q n by (rule Suc.IH)
      finally show ?thesis using dr None by simp
    next
      case (Some cb)
      let ?s0 = "s\<lparr>trace := trace s @ [Called cb K v (state s K)]\<rparr>"
      have "Some cb \<in> set es" using True Some by (metis nth_mem)
      then have qcb: "quiet (B cb v (state s))" using q by (simp add: set_members)
      obtain m where m: "n = Suc m" using n by (cases n) simp_all
      let ?s1 = "if B cb v (state s) = [] then ?s0 else console_error K cb ?s0"
      have tc: "try_catch (run n B (B cb v (state s)) ?s0) (console_error K cb) = (Normal, ?s1)"
        using qcb m by (simp add: run_quiet try_catch_def)
      have "forEach (Suc n) B K v i s = forEach n B K v (i + 1) ?s1"
        using es True Some tc by simp
      also have "\<dots> = (Normal, ?s1\<lparr>trace := trace ?s1 @ concat (map (slot_trace B K v (state ?s1)) (drop (i + 1) es))\<rparr>)"
      proof (rule Suc.IH)
        show "listeners ?s1 K = Some es" using es by (simp add: console_error_def)
        show "\<forall>c \<in> set (members es). quiet (B c v (state ?s1))"
          using q by (simp add: console_error_def)
        show "length es - (i + 1) < n" by (rule n)
      qed
      finally show ?thesis using dr Some by (simp add: console_error_def)
    qed
  qed
qed

lemma setState_quiet:
  assumes "listeners s K = Some es"
    and "strict_neq (state s K) v"
    and "\<forall>c \<in> set (members es). quiet (B c v ((state s)(K := v)))"
    and "length es + 3 \<le> n"
  shows "setState n B K v s =
           (Normal, s\<lparr>state := (state s)(K := v),
                      trace := trace s @ Notified K v
                                # concat (map (slot_trace B K v ((state s)(K := v))) es)\<rparr>)"
proof -
  obtain m where m: "n = Suc (Suc m)" "length es < m"
    using assms(4) by (cases n; cases "n - 1") auto
  let ?s0 = "s\<lparr>state := (state s)(K := v)\<rparr>"
  let ?s1 = "?s0\<lparr>trace := trace ?s0 @ [Notified K v]\<rparr>"
  have "forEach m B K v 0 ?s1 =
          (Normal, ?s1\<lparr>trace := trace ?s1 @ concat (map (slot_trace B K v (state ?s1)) (drop 0 es))\<rparr>)"
    by (rule forEach_quiet) (use assms m in simp_all)
  then show ?thesis
    using assms(1,2) m by (simp add: Let_def)
qed

lemma calls_for_slot_trace:
  "calls_for K (concat (map (slot_trace B K v st) es)) = members es"
  by (induction es)
    (auto simp: calls_for_def members_def List.map_filter_simps split: option.splits)

subsection \<open>An unsubscribed callback\<close>

lemma uf_refl: "\<not> subscribed s K C \<Longrightarrow> unsub_frame K C s s"
  by (simp add: unsub_frame_def)

lemma uf_trans:
  assumes "unsub_frame K C s s1" "unsub_frame K C s1 s2"
  shows "unsub_frame K C s s2"
proof -
  from assms(1) obtain n1 where 1: "trace s1 = trace s @ n1" "filter (is_call C K) n1 = []"
    unfolding unsub_frame_def by blast
  from assms(2) obtain n2 where 2: "\<not> subscribed s2 K C" "trace s2 = trace s1 @ n2"
    "filter (is_call C K) n2 = []"
    unfolding unsub_frame_def by blast
  have "trace s2 = trace s @ (n1 @ n2)" "filter (is_call C K) (n1 @ n2) = []"
    using 1 2 by simp_all
  then show ?thesis
    unfolding unsub_frame_def using 2(1) by metis
qed

lemma uf_subscribed: "unsub_frame K C s s' \<Longrightarrow> \<not> subscribed s' K C"
  by (simp add: unsub_frame_def)

lemma uf_trace:
  "\<not> subscribed s K C \<Longrightarrow> \<not> is_call C K e \<Longrightarrow> unsub_frame K C s (s\<lparr>trace := trace s @ [e]\<rparr>)"
  by (simp add: unsub_frame_def subscribed_def)

lemma uf_state: "\<not> subscribed s K C \<Longrightarrow> unsub_frame K C s (s\<lparr>state := f\<rparr>)"
  by (simp add: unsub_frame_def subscribed_def)

lemma uf_subscribe:
  "\<not> subscribed s K C \<Longrightarrow> \<not> (k = K \<and> c = C) \<Longrightarrow> unsub_frame K C s (snd (subscribe k c s))"
  by (auto simp: unsub_frame_def subscribed_def subscribe_def Let_def set_add_def set_has_def
      split: option.splits if_splits)

lemma uf_unsubscribe:
  "\<not> subscribed s K C \<Longrightarrow> unsub_frame K C s (snd (unsubscribe k c s))"
  by (auto simp: unsub_frame_def subscribed_def unsubscribe_def set_delete_def set_has_def
      split: option.splits if_splits)

lemma uf_try_catch:
  "unsub_frame K C s (snd (try_catch r (console_error k c)))" if "unsub_frame K C s (snd r)"
proof (cases r)
  case (Pair out s1)
  show ?thesis
  proof (cases out)
    case Raised
    have "unsub_frame K C s1 (s1\<lparr>trace := trace s1 @ [ConsoleError k c]\<rparr>)"
      using that Pair by (intro uf_trace) (simp_all add: unsub_frame_def)
    with that show ?thesis
      using Pair Raised by (auto simp: try_catch_def console_error_def intro: uf_trans)
  qed (use that Pair in \<open>auto simp: try_catch_def\<close>)
qed

lemma unsub_frame_all:
  assumes ns: "never_subscribes B K C"
  shows "(\<forall>acts s. Subscribe K C \<notin> set acts \<and> \<not> subscribed s K C
                    \<longrightarrow> unsub_frame K C s (snd (run n B acts s)))
       \<and> (\<forall>k w s. \<not> subscribed s K C \<longrightarrow> unsub_frame K C s (snd (setState n B k w s)))
       \<and> (\<forall>k w s. \<not> subscribed s K C \<longrightarrow> unsub_frame K C s (snd (notify n B k w s)))
       \<and> (\<forall>k w i s. \<not> subscribed s K C \<longrightarrow> unsub_frame K C s (snd (forEach n B k w i s)))"
proof (induction n)
  case 0
  show ?case by (simp add: uf_refl)
next
  case (Suc n)
  note IH = Suc.IH
  have IHrun: "unsub_frame K C s (snd (run n B acts s))"
    if "Subscribe K C \<notin> set acts" "\<not> subscribed s K C" for acts s
    using IH that by simp
  have IHset: "unsub_frame K C s (snd (setState n B k w s))" if "\<not> subscribed s K C" for k w s
    using IH that by simp
  have IHnot: "unsub_frame K C s (snd (notify n B k w s))" if "\<not> subscribed s K C" for k w s
    using IH that by simp
  have IHfor: "unsub_frame K C s (snd (forEach n B k w i s))" if "\<not> subscribed s K C" for k w i s
    using IH that by simp
  have run: "unsub_frame K C s (snd (run (Suc n) B acts s))"
    if a: "Subscribe K C \<notin> set acts" and u: "\<not> subscribed s K C" for acts s
  proof (cases acts)
    case Nil
    then show ?thesis using u by (simp add: uf_refl)
  next
    case (Cons a rest)
    have rest: "Subscribe K C \<notin> set rest" using that Cons by simp
    show ?thesis
    proof (cases a)
      case (SetState k w)
      obtain r s1 where r: "setState n B k w s = (r, s1)" by (cases "setState n B k w s")
      have f1: "unsub_frame K C s s1" using IHset [OF u, where k = k and w = w] r by simp
      show ?thesis
      proof (cases "r = Normal")
        case True
        then have "run (Suc n) B acts s = run n B rest s1" using Cons SetState r by simp
        then show ?thesis using uf_trans [OF f1 IHrun [OF rest uf_subscribed [OF f1]]] by simp
      next
        case False
        then have "run (Suc n) B acts s = (r, s1)" using Cons SetState r by (cases r) simp_all
        then show ?thesis using f1 by simp
      qed
    next
      case (Subscribe k c)
      then have ne: "\<not> (k = K \<and> c = C)" using a Cons by auto
      have f1: "unsub_frame K C s (snd (subscribe k c s))" using u ne by (rule uf_subscribe)
      have "run (Suc n) B acts s = run n B rest (snd (subscribe k c s))"
        using Cons Subscribe by simp
      then show ?thesis using uf_trans [OF f1 IHrun [OF rest uf_subscribed [OF f1]]] by simp
    next
      case (Unsubscribe k c)
      obtain r s1 where r: "unsubscribe k c s = (r, s1)" by (cases "unsubscribe k c s")
      have f1: "unsub_frame K C s s1" using uf_unsubscribe [OF u, where k = k and c = c] r by simp
      show ?thesis
      proof (cases "r = Normal")
        case True
        then have "run (Suc n) B acts s = run n B rest s1" using Cons Unsubscribe r by simp
        then show ?thesis using uf_trans [OF f1 IHrun [OF rest uf_subscribed [OF f1]]] by simp
      next
        case False
        then have "run (Suc n) B acts s = (r, s1)" using Cons Unsubscribe r by (cases r) simp_all
        then show ?thesis using f1 by simp
      qed
    next
      case Throw
      then show ?thesis using Cons u by (simp add: uf_refl)
    qed
  qed
  have setS: "unsub_frame K C s (snd (setState (Suc n) B k w s))" if u: "\<not> subscribed s K C" for k w s
  proof (cases "strict_neq (state s k) w")
    case True
    let ?s0 = "s\<lparr>state := (state s)(k := w)\<rparr>"
    have f0: "unsub_frame K C s ?s0" using u by (rule uf_state)
    have "setState (Suc n) B k w s = notify n B k w ?s0" using True by simp
    then show ?thesis using uf_trans [OF f0 IHnot [OF uf_subscribed [OF f0]]] by simp
  next
    case False
    then show ?thesis using u by (simp add: uf_refl)
  qed
  have noti: "unsub_frame K C s (snd (notify (Suc n) B k w s))" if u: "\<not> subscribed s K C" for k w s
  proof -
    let ?s1 = "s\<lparr>trace := trace s @ [Notified k w]\<rparr>"
    have f1: "unsub_frame K C s ?s1" using u by (intro uf_trace) simp_all
    show ?thesis
    proof (cases "listeners s k")
      case None
      then show ?thesis using f1 by simp
    next
      case (Some es)
      then have "notify (Suc n) B k w s = forEach n B k w 0 ?s1" by simp
      then show ?thesis using uf_trans [OF f1 IHfor [OF uf_subscribed [OF f1]]] by simp
    qed
  qed
  have fore: "unsub_frame K C s (snd (forEach (Suc n) B k w i s))"
    if u: "\<not> subscribed s K C" for k w i s
  proof (cases "listeners s k")
    case None
    then show ?thesis using u by (simp add: uf_refl)
  next
    case (Some entries)
    note es = this
    show ?thesis
    proof (cases "i < length entries")
      case False
      then show ?thesis using es u by (simp add: uf_refl)
    next
      case True
      show ?thesis
      proof (cases "entries ! i")
        case None
        then have "forEach (Suc n) B k w i s = forEach n B k w (i + 1) s" using es True by simp
        then show ?thesis using IHfor [OF u] by simp
      next
        case (Some cb)
        let ?s0 = "s\<lparr>trace := trace s @ [Called cb k w (state s k)]\<rparr>"
        let ?r = "run n B (B cb w (state s)) ?s0"
        have "Some cb \<in> set entries" using True Some by (metis nth_mem)
        then have "\<not> (cb = C \<and> k = K)"
          using u es by (auto simp: subscribed_def set_has_def)
        then have e: "\<not> is_call C K (Called cb k w (state s k))" by simp
        have f0: "unsub_frame K C s ?s0" using u e by (rule uf_trace)
        have body: "Subscribe K C \<notin> set (B cb w (state s))"
          using ns by (simp add: never_subscribes_def)
        have f1: "unsub_frame K C s (snd ?r)"
          using f0 IHrun [OF body uf_subscribed [OF f0]] by (rule uf_trans)
        then have f2: "unsub_frame K C s (snd (try_catch ?r (console_error k cb)))"
          by (rule uf_try_catch)
        obtain r s2 where r: "try_catch ?r (console_error k cb) = (r, s2)"
          by (cases "try_catch ?r (console_error k cb)")
        have f3: "unsub_frame K C s s2" using f2 r by simp
        show ?thesis
        proof (cases "r = Normal")
          case True
          then have "forEach (Suc n) B k w i s = forEach n B k w (i + 1) s2"
            using es \<open>i < length entries\<close> Some r by simp
          then show ?thesis using uf_trans [OF f3 IHfor [OF uf_subscribed [OF f3]]] by simp
        next
          case False
          then have "forEach (Suc n) B k w i s = (r, s2)"
            using es \<open>i < length entries\<close> Some r by (cases r) simp_all
          then show ?thesis using f3 by simp
        qed
      qed
    qed
  qed
  show ?case by (intro conjI allI impI run setS noti fore) simp_all
qed

subsection \<open>Top-level calls\<close>

lemma new_events_append: "trace s' = trace s @ new \<Longrightarrow> new_events s s' = new"
  by (simp add: new_events_def)

lemma pass_event_current: "pass_event K v e \<Longrightarrow> current K e"
  by (cases e) auto

lemma pass_event_not_notify: "pass_event K v e \<Longrightarrow> \<not> is_notify K e"
  by (cases e) auto

lemma filter_notify_pass: "list_all (pass_event K v) new \<Longrightarrow> filter (is_notify K) new = []"
  by (induction new) (auto dest: pass_event_not_notify)

text \<open>What a call of \<open>notify\<close> for \<open>K\<close> adds when \<open>v\<close> is the stored value and nobody writes \<open>K\<close>.\<close>

lemma notify_top:
  assumes nw: "never_writes B K" and st: "state s K = v"
  shows "\<exists>new. trace (snd (notify n B K v s)) = trace s @ new
               \<and> state (snd (notify n B K v s)) K = v
               \<and> (if n = 0 then new = []
                   else \<exists>new'. new = Notified K v # new' \<and> list_all (pass_event K v) new')"
proof (cases n)
  case 0
  then show ?thesis using st by simp
next
  case (Suc m)
  let ?s1 = "s\<lparr>trace := trace s @ [Notified K v]\<rparr>"
  show ?thesis
  proof (cases "listeners s K")
    case None
    then show ?thesis using Suc st by simp
  next
    case (Some es)
    then have eq: "notify n B K v s = forEach m B K v 0 ?s1" using Suc by simp
    have "frame K v ?s1 (snd (forEach m B K v 0 ?s1))"
      using frame_all [OF nw, of v m] st by simp
    then obtain new' where "state (snd (forEach m B K v 0 ?s1)) K = v"
      "trace (snd (forEach m B K v 0 ?s1)) = trace s @ Notified K v # new'"
      "list_all (pass_event K v) new'"
      using st unfolding frame_def by auto
    then show ?thesis using eq Suc by simp
  qed
qed

lemma setState_top:
  assumes nw: "never_writes B K"
  shows "\<exists>new. trace (snd (setState n B K v s)) = trace s @ new
               \<and> (if strict_neq (state s K) v \<and> 0 < n
                   then state (snd (setState n B K v s)) K = v
                        \<and> (if n = 1 then new = []
                            else \<exists>new'. new = Notified K v # new' \<and> list_all (pass_event K v) new')
                   else snd (setState n B K v s) = s \<and> new = [])"
proof (cases n)
  case 0
  then show ?thesis by simp
next
  case (Suc m)
  show ?thesis
  proof (cases "strict_neq (state s K) v")
    case False
    then show ?thesis using Suc by simp
  next
    case True
    let ?s0 = "s\<lparr>state := (state s)(K := v)\<rparr>"
    have eq: "setState n B K v s = notify m B K v ?s0" using Suc True by simp
    have "state ?s0 K = v" by simp
    from notify_top [OF nw this, of m] obtain new where
      "trace (snd (notify m B K v ?s0)) = trace s @ new"
      "state (snd (notify m B K v ?s0)) K = v"
      "if m = 0 then new = []
       else \<exists>new'. new = Notified K v # new' \<and> list_all (pass_event K v) new'"
      by auto
    then show ?thesis using eq Suc True by auto
  qed
qed

text \<open>
  Claim C1, as stated, fails. Listener 0 answers the value SEC by setting the filter back
  to 'all'; listener 1, later in the same pass, is then invoked with SEC while the store
  holds 'all'.
\<close>

theorem stale_value_counterexample:
  "fst (setState 10 ex_reentrant ''activeConference'' (Str ''SEC'') ex_store) = Normal
   \<and> trace (snd (setState 10 ex_reentrant ''activeConference'' (Str ''SEC'') ex_store)) =
       [Notified ''activeConference'' (Str ''SEC''),
        Called 0 ''activeConference'' (Str ''SEC'') (Str ''SEC''),
        Notified ''activeConference'' (Str ''all''),
        Called 0 ''activeConference'' (Str ''all'') (Str ''all''),
        Called 1 ''activeConference'' (Str ''all'') (Str ''all''),
        Called 1 ''activeConference'' (Str ''SEC'') (Str ''all'')]
   \<and> \<not> current ''activeConference'' (Called 1 ''activeConference'' (Str ''SEC'') (Str ''all''))"
  by code_simp

text \<open>
  Claim C1, amended. If no callback performs a \<open>setState\<close> on key K, then every
  invocation that a \<open>setState\<close> on K makes of a callback subscribed to K passes the value
  that is stored for K at the moment of the invocation; re-entrant \<open>setState\<close> calls on
  other keys, which cascade synchronously, do not change this. The same holds for a call
  of \<open>notify\<close> made with the stored value.
\<close>

theorem notification_passes_current_value:
  assumes "never_writes B K"
  shows "(\<forall>e \<in> set (new_events s (snd (setState n B K v s))). current K e)
         \<and> (\<forall>c a st. Called c K a st \<in> set (new_events s (snd (setState n B K v s)))
                \<longrightarrow> a = v \<and> st = v)
         \<and> (state s K = v \<longrightarrow>
              (\<forall>e \<in> set (new_events s (snd (notify n B K v s))). current K e))"
proof -
  have pe: "\<forall>e \<in> set new. pass_event K v e \<or> e = Notified K v \<Longrightarrow>
            (\<forall>e \<in> set new. current K e) \<and> (\<forall>c a st. Called c K a st \<in> set new \<longrightarrow> a = v \<and> st = v)"
    for new
    by (auto dest: pass_event_current)
  from setState_top [OF assms, of n v s] obtain new where
    t: "trace (snd (setState n B K v s)) = trace s @ new" and
    c: "if strict_neq (state s K) v \<and> 0 < n
        then state (snd (setState n B K v s)) K = v
             \<and> (if n = 1 then new = []
                 else \<exists>new'. new = Notified K v # new' \<and> list_all (pass_event K v) new')
        else snd (setState n B K v s) = s \<and> new = []"
    by blast
  have "\<forall>e \<in> set new. pass_event K v e \<or> e = Notified K v"
    using c by (auto simp: list_all_iff split: if_splits)
  then have 1: "(\<forall>e \<in> set new. current K e)
                \<and> (\<forall>c a st. Called c K a st \<in> set new \<longrightarrow> a = v \<and> st = v)"
    by (rule pe)
  have 2: "\<forall>e \<in> set (new_events s (snd (notify n B K v s))). current K e" if "state s K = v"
  proof -
    from notify_top [OF assms that, of n] obtain new2 where
      t2: "trace (snd (notify n B K v s)) = trace s @ new2" and
      c2: "if n = 0 then new2 = []
           else \<exists>new'. new2 = Notified K v # new' \<and> list_all (pass_event K v) new'"
      by blast
    have "\<forall>e \<in> set new2. pass_event K v e \<or> e = Notified K v"
      using c2 by (auto simp: list_all_iff split: if_splits)
    then show ?thesis using pe new_events_append [OF t2] by simp
  qed
  note ne = new_events_append [OF t]
  show ?thesis
  proof (intro conjI impI)
    show "\<forall>e \<in> set (new_events s (snd (setState n B K v s))). current K e"
      unfolding ne using 1 by (rule conjunct1)
    show "\<forall>c a st. Called c K a st \<in> set (new_events s (snd (setState n B K v s)))
                \<longrightarrow> a = v \<and> st = v"
      unfolding ne using 1 by (rule conjunct2)
    show "\<forall>e \<in> set (new_events s (snd (notify n B K v s))). current K e" if "state s K = v"
      using that by (rule 2)
  qed
qed

theorem notification_passes_current_value_witness:
  "never_writes ex_cascade ''activeConference''
   \<and> list_all (current ''activeConference'')
         (new_events ex_store (snd (setState 10 ex_cascade ''activeConference'' (Str ''SEC'') ex_store)))
   \<and> new_events ex_store (snd (setState 10 ex_cascade ''activeConference'' (Str ''SEC'') ex_store))
       = [Notified ''activeConference'' (Str ''SEC''),
          Called 0 ''activeConference'' (Str ''SEC'') (Str ''SEC''),
          Notified ''selectedSchool'' Null,
          Called 2 ''selectedSchool'' Null Null,
          Called 1 ''activeConference'' (Str ''SEC'') (Str ''SEC'')]"
proof -
  have h: "never_writes ex_cascade ''activeConference''"
    by (simp add: never_writes_def ex_cascade_def)
  have e: "new_events ex_store (snd (setState 10 ex_cascade ''activeConference'' (Str ''SEC'') ex_store))
       = [Notified ''activeConference'' (Str ''SEC''),
          Called 0 ''activeConference'' (Str ''SEC'') (Str ''SEC''),
          Notified ''selectedSchool'' Null,
          Called 2 ''selectedSchool'' Null Null,
          Called 1 ''activeConference'' (Str ''SEC'') (Str ''SEC'')]"
    by code_simp
  show ?thesis
    using h e notification_passes_current_value [OF h, of ex_store 10 "Str ''SEC''"]
    by (simp add: list_all_iff)
qed

text \<open>
  Claim C2, as stated, fails in two ways. A listener that answers SEC by setting the
  filter back to 'all' makes the second \<open>setState(K, SEC)\<close> a change again: the two calls
  run four notifications. And NaN is never equal to the stored value, so writing it twice
  notifies twice.
\<close>

theorem repeated_set_notifies_again_counterexample:
  "Str ''SEC'' \<noteq> state ex_store ''activeConference''
   \<and> fst (setState 10 ex_reentrant ''activeConference'' (Str ''SEC'') ex_store) = Normal
   \<and> filter (is_notify ''activeConference'')
        (trace (snd (setState 10 ex_reentrant ''activeConference'' (Str ''SEC'')
           (snd (setState 10 ex_reentrant ''activeConference'' (Str ''SEC'') ex_store)))))
       = [Notified ''activeConference'' (Str ''SEC''), Notified ''activeConference'' (Str ''all''),
          Notified ''activeConference'' (Str ''SEC''), Notified ''activeConference'' (Str ''all'')]
   \<and> NaN \<noteq> state ex_store ''activeConference''
   \<and> fst (setState 10 ex_observers ''activeConference'' NaN ex_store) = Normal
   \<and> filter (is_notify ''activeConference'')
        (trace (snd (setState 10 ex_observers ''activeConference'' NaN
           (snd (setState 10 ex_observers ''activeConference'' NaN ex_store)))))
       = [Notified ''activeConference'' NaN, Notified ''activeConference'' NaN]"
  by code_simp

text \<open>
  Claim C2, amended. Let V1 and V2 be distinct values, V1 not NaN, and let no callback
  perform a \<open>setState\<close> on K. Starting from the stored value V2, a call \<open>setState(K, V1)\<close>
  stores V1 and calls \<open>notify\<close> for K exactly once, with V1; a second \<open>setState(K, V1)\<close> on
  the store that the first call leaves returns it unchanged and notifies no one. (The
  first call needs fuel for the write and for the call of \<open>notify\<close>; nothing is assumed
  about how the cascade it starts ends.)
\<close>

theorem repeated_set_is_noop:
  assumes "never_writes B K" and "state s K = V2" and "V1 \<noteq> V2" and "V1 \<noteq> NaN"
    and "2 \<le> n"
  shows "state (snd (setState n B K V1 s)) K = V1
         \<and> filter (is_notify K) (new_events s (snd (setState n B K V1 s))) = [Notified K V1]
         \<and> setState (Suc m) B K V1 (snd (setState n B K V1 s))
             = (Normal, snd (setState n B K V1 s))
         \<and> new_events (snd (setState n B K V1 s))
              (snd (setState (Suc m) B K V1 (snd (setState n B K V1 s)))) = []"
proof -
  let ?s1 = "snd (setState n B K V1 s)"
  have sn: "strict_neq (state s K) V1" using assms(2,3) by (auto simp: strict_neq_def)
  have n: "0 < n" "n \<noteq> 1" using assms(5) by simp_all
  from setState_top [OF assms(1), of n V1 s] obtain new where
    t: "trace ?s1 = trace s @ new" and
    c: "if strict_neq (state s K) V1 \<and> 0 < n
        then state ?s1 K = V1
             \<and> (if n = 1 then new = []
                 else \<exists>new'. new = Notified K V1 # new' \<and> list_all (pass_event K V1) new')
        else ?s1 = s \<and> new = []"
    by blast
  have st: "state ?s1 K = V1" using c sn n by simp
  obtain new' where new: "new = Notified K V1 # new'" "list_all (pass_event K V1) new'"
    using c sn n by auto
  have ne: "new_events s ?s1 = new" using t by (simp add: new_events_append)
  have one: "filter (is_notify K) (new_events s ?s1) = [Notified K V1]"
    unfolding ne new using filter_notify_pass [OF new(2)] by simp
  have "\<not> strict_neq (state ?s1 K) V1" using st assms(4) by (simp add: strict_neq_def)
  then have again: "setState (Suc m) B K V1 ?s1 = (Normal, ?s1)" by simp
  have silent: "new_events ?s1 (snd (setState (Suc m) B K V1 ?s1)) = []"
    unfolding again by (simp add: new_events_def)
  show ?thesis
  proof (intro conjI)
    show "state ?s1 K = V1" by (rule st)
    show "filter (is_notify K) (new_events s ?s1) = [Notified K V1]" by (rule one)
    show "setState (Suc m) B K V1 ?s1 = (Normal, ?s1)" by (rule again)
    show "new_events ?s1 (snd (setState (Suc m) B K V1 ?s1)) = []" by (rule silent)
  qed
qed

theorem repeated_set_is_noop_witness:
  "never_writes ex_cascade ''activeConference''
   \<and> state ex_store ''activeConference'' = Str ''all'' \<and> Str ''SEC'' \<noteq> Str ''all''
   \<and> Str ''SEC'' \<noteq> NaN \<and> (2 :: nat) \<le> 10
   \<and> state (snd (setState 10 ex_cascade ''activeConference'' (Str ''SEC'') ex_store))
        ''activeConference'' = Str ''SEC''
   \<and> filter (is_notify ''activeConference'')
        (new_events ex_store (snd (setState 10 ex_cascade ''activeConference'' (Str ''SEC'') ex_store)))
       = [Notified ''activeConference'' (Str ''SEC'')]
   \<and> setState 1 ex_cascade ''activeConference'' (Str ''SEC'')
        (snd (setState 10 ex_cascade ''activeConference'' (Str ''SEC'') ex_store))
       = (Normal, snd (setState 10 ex_cascade ''activeConference'' (Str ''SEC'') ex_store))"
proof -
  have h: "never_writes ex_cascade ''activeConference''"
    by (simp add: never_writes_def ex_cascade_def)
  have v2: "state ex_store ''activeConference'' = Str ''all''"
    by (simp add: ex_store_def)
  have d: "Str ''SEC'' \<noteq> Str ''all''" "Str ''SEC'' \<noteq> NaN" by simp_all
  have f: "(2 :: nat) \<le> 10" by simp
  note t = repeated_set_is_noop [OF h v2 d f, of 0]
  show ?thesis
  proof (intro conjI)
    show "never_writes ex_cascade ''activeConference''" by (rule h)
    show "state ex_store ''activeConference'' = Str ''all''" by (rule v2)
    show "Str ''SEC'' \<noteq> Str ''all''" by (rule d(1))
    show "Str ''SEC'' \<noteq> NaN" by (rule d(2))
    show "(2 :: nat) \<le> 10" by (rule f)
    show "state (snd (setState 10 ex_cascade ''activeConference'' (Str ''SEC'') ex_store))
        ''activeConference'' = Str ''SEC''"
      using t by (rule conjunct1)
    show "filter (is_notify ''activeConference'')
        (new_events ex_store (snd (setState 10 ex_cascade ''activeConference'' (Str ''SEC'') ex_store)))
       = [Notified ''activeConference'' (Str ''SEC'')]"
      using t by (elim conjE)
    show "setState 1 ex_cascade ''activeConference'' (Str ''SEC'')
        (snd (setState 10 ex_cascade ''activeConference'' (Str ''SEC'') ex_store))
       = (Normal, snd (setState 10 ex_cascade ''activeConference'' (Str ''SEC'') ex_store))"
      using t unfolding One_nat_def by (elim conjE)
  qed
qed

lemma members_Nil: "members [] = []"
  by (simp add: members_def List.map_filter_simps)

lemma members_set_delete: "members (set_delete es C) = removeAll C (members es)"
  by (induction es) (auto simp: set_delete_def members_Cons members_Nil split: option.splits)

lemma not_has_set_delete: "\<not> set_has (set_delete es C) C"
  by (auto simp: set_has_def set_delete_def)

lemma subscribe_returns: "fst (subscribe K C s) = unsubscribe K C"
  by (simp add: subscribe_def Let_def)

lemma subscribed_subscribe: "subscribed (snd (subscribe K C s)) K C"
  by (auto simp: subscribe_def Let_def subscribed_def set_add_def set_has_def)

lemma unsub_frame_setState:
  assumes "never_subscribes B K C" "\<not> subscribed t K C"
  shows "filter (is_call C K) (new_events t (snd (setState n B k w t))) = []
         \<and> \<not> subscribed (snd (setState n B k w t)) K C"
proof -
  have "unsub_frame K C t (snd (setState n B k w t))"
    using unsub_frame_all [OF assms(1), of n] assms(2) by simp
  then show ?thesis
    unfolding unsub_frame_def by (auto simp: new_events_def)
qed

lemma unsub_frame_forEach:
  assumes "never_subscribes B K C" "\<not> subscribed t K C"
  shows "filter (is_call C K) (new_events t (snd (forEach n B k w i t))) = []"
proof -
  have "unsub_frame K C t (snd (forEach n B k w i t))"
    using unsub_frame_all [OF assms(1), of n] assms(2) by simp
  then show ?thesis
    unfolding unsub_frame_def by (auto simp: new_events_def)
qed

text \<open>
  Claim C3. The function returned by \<open>subscribe(K, C)\<close>, called on any later store,
  returns normally and removes exactly C from the set registered for K: the other
  callbacks stay registered, in the same order, and nothing else in the store changes.
  From then on, as long as C is not subscribed to K again, no \<open>setState\<close> on any key
  and no pass of \<open>notify\<close> that is still in progress invokes C for K, whatever the other
  callbacks do. The other subscribers of K are still
  notified: when they return or throw without calling into the store, the next change of
  K invokes each of them once, in order, and not C.
\<close>

theorem unsubscribe_stops_notifications:
  assumes "subscribe K C s0 = (unsub, s1)"
    and "listeners s K = Some es"
    and "unsub s = (out, s')"
  shows "subscribed s1 K C
         \<and> out = Normal
         \<and> listeners s' K = Some (set_delete es C)
         \<and> members (set_delete es C) = removeAll C (members es)
         \<and> (\<forall>k. k \<noteq> K \<longrightarrow> listeners s' k = listeners s k)
         \<and> state s' = state s \<and> trace s' = trace s
         \<and> \<not> subscribed s' K C
         \<and> (\<forall>n B k w t. never_subscribes B K C \<and> \<not> subscribed t K C \<longrightarrow>
               filter (is_call C K) (new_events t (snd (setState n B k w t))) = []
               \<and> \<not> subscribed (snd (setState n B k w t)) K C
               \<and> (\<forall>i. filter (is_call C K) (new_events t (snd (forEach n B k w i t))) = []))
         \<and> (\<forall>n B w. strict_neq (state s' K) w
                      \<and> (\<forall>c \<in> set (removeAll C (members es)). quiet (B c w ((state s')(K := w))))
                      \<and> length es + 3 \<le> n \<longrightarrow>
               fst (setState n B K w s') = Normal
               \<and> calls_for K (new_events s' (snd (setState n B K w s'))) = removeAll C (members es))"
proof -
  have u: "unsub = unsubscribe K C"
    using assms(1) subscribe_returns [of K C s0] by simp
  have s1: "subscribed s1 K C"
    using assms(1) subscribed_subscribe [of K C s0] by simp
  have res: "out = Normal" "s' = s\<lparr>listeners := (listeners s)(K \<mapsto> set_delete es C)\<rparr>"
    using assms(2,3) u by (simp_all add: unsubscribe_def)
  have l: "listeners s' K = Some (set_delete es C)" using res by simp
  have others: "\<forall>k. k \<noteq> K \<longrightarrow> listeners s' k = listeners s k" using res by simp
  have same: "state s' = state s" "trace s' = trace s" using res by simp_all
  have gone: "\<not> subscribed s' K C"
    using l not_has_set_delete [of es C] by (simp add: subscribed_def)
  have never: "\<forall>n B k w t. never_subscribes B K C \<and> \<not> subscribed t K C \<longrightarrow>
               filter (is_call C K) (new_events t (snd (setState n B k w t))) = []
               \<and> \<not> subscribed (snd (setState n B k w t)) K C
               \<and> (\<forall>i. filter (is_call C K) (new_events t (snd (forEach n B k w i t))) = [])"
    using unsub_frame_setState unsub_frame_forEach by blast
  have still: "fst (setState n B K w s') = Normal
               \<and> calls_for K (new_events s' (snd (setState n B K w s'))) = removeAll C (members es)"
    if a: "strict_neq (state s' K) w"
      and q: "\<forall>c \<in> set (removeAll C (members es)). quiet (B c w ((state s')(K := w)))"
      and f: "length es + 3 \<le> n" for n B w
  proof -
    let ?es = "set_delete es C"
    let ?st = "(state s')(K := w)"
    have q': "\<forall>c \<in> set (members ?es). quiet (B c w ?st)"
      using q by (simp add: members_set_delete)
    have f': "length ?es + 3 \<le> n" using f by (simp add: set_delete_def)
    have r: "setState n B K w s' =
               (Normal, s'\<lparr>state := ?st,
                  trace := trace s' @ Notified K w # concat (map (slot_trace B K w ?st) ?es)\<rparr>)"
      using l a q' f' by (rule setState_quiet)
    have "calls_for K (Notified K w # concat (map (slot_trace B K w ?st) ?es)) = members ?es"
      using calls_for_slot_trace [of K B w ?st ?es]
      by (simp add: calls_for_def List.map_filter_simps)
    then show ?thesis
      unfolding r by (simp add: new_events_def members_set_delete)
  qed
  show ?thesis
  proof (intro conjI)
    show "subscribed s1 K C" by (rule s1)
    show "out = Normal" by (rule res(1))
    show "listeners s' K = Some (set_delete es C)" by (rule l)
    show "members (set_delete es C) = removeAll C (members es)" by (rule members_set_delete)
    show "\<forall>k. k \<noteq> K \<longrightarrow> listeners s' k = listeners s k" by (rule others)
    show "state s' = state s" by (rule same(1))
    show "trace s' = trace s" by (rule same(2))
    show "\<not> subscribed s' K C" by (rule gone)
    show "\<forall>n B k w t. never_subscribes B K C \<and> \<not> subscribed t K C \<longrightarrow>
               filter (is_call C K) (new_events t (snd (setState n B k w t))) = []
               \<and> \<not> subscribed (snd (setState n B k w t)) K C
               \<and> (\<forall>i. filter (is_call C K) (new_events t (snd (forEach n B k w i t))) = [])"
      by (rule never)
    show "\<forall>n B w. strict_neq (state s' K) w
                      \<and> (\<forall>c \<in> set (removeAll C (members es)). quiet (B c w ((state s')(K := w))))
                      \<and> length es + 3 \<le> n \<longrightarrow>
               fst (setState n B K w s') = Normal
               \<and> calls_for K (new_events s' (snd (setState n B K w s'))) = removeAll C (members es)"
      using still by blast
  qed
qed

theorem unsubscribe_stops_notifications_witness:
  "listeners (snd (subscribe ''activeConference'' 0 ex_store)) ''activeConference''
     = Some [Some 0, Some 1]
   \<and> listeners ex_unsubscribed ''activeConference'' = Some [None, Some 1]
   \<and> never_subscribes ex_cascade ''activeConference'' 0
   \<and> filter (is_call 0 ''activeConference'')
        (new_events ex_unsubscribed
           (snd (setState 10 ex_cascade ''activeConference'' (Str ''SEC'') ex_unsubscribed))) = []
   \<and> calls_for ''activeConference''
        (new_events ex_unsubscribed
           (snd (setState 10 ex_cascade ''activeConference'' (Str ''SEC'') ex_unsubscribed))) = [1]"
proof -
  let ?K = "''activeConference''"
  let ?p = "subscribe ?K 0 ex_store"
  have a1: "subscribe ?K 0 ex_store = (fst ?p, snd ?p)" by simp
  have a2: "listeners (snd ?p) ?K = Some [Some 0, Some 1]"
    by (simp add: subscribe_def ex_store_def set_add_def set_has_def)
  have a3: "fst ?p (snd ?p) = (fst (fst ?p (snd ?p)), ex_unsubscribed)"
    by (simp add: ex_unsubscribed_def)
  have ns: "never_subscribes ex_cascade ?K 0"
    by (simp add: never_subscribes_def ex_cascade_def)
  have sn: "strict_neq (state ex_unsubscribed ?K) (Str ''SEC'')"
    by (simp add: ex_unsubscribed_def subscribe_def unsubscribe_def ex_store_def set_add_def
        set_has_def strict_neq_def)
  have q: "\<forall>c \<in> set (removeAll 0 (members [Some 0, Some 1])).
             quiet (ex_cascade c (Str ''SEC'') ((state ex_unsubscribed)(?K := Str ''SEC'')))"
    by (simp add: members_Cons members_def List.map_filter_simps ex_cascade_def)
  note t = unsubscribe_stops_notifications [OF a1 a2 a3]
  have l: "listeners ex_unsubscribed ?K = Some [None, Some 1]"
    using t by (simp add: set_delete_def)
  have gone: "\<not> subscribed ex_unsubscribed ?K 0" using t by simp
  have never: "filter (is_call 0 ?K)
        (new_events ex_unsubscribed (snd (setState 10 ex_cascade ?K (Str ''SEC'') ex_unsubscribed))) = []"
    using t ns gone by blast
  have still: "calls_for ?K
        (new_events ex_unsubscribed (snd (setState 10 ex_cascade ?K (Str ''SEC'') ex_unsubscribed)))
        = removeAll 0 (members [Some 0, Some 1])"
    using t sn q by simp
  show ?thesis
    using a2 l ns never still
    by (simp add: members_Cons members_def List.map_filter_simps)
qed

text \<open>
  Claim C4. When the callbacks subscribed to K return or throw without calling into the
  store, a \<open>setState\<close> that changes K returns normally: every subscriber is invoked once, in
  order, with the new value, also after a subscriber that threw; each error is written to
  the console right after the invocation that raised it; and the store keeps the new
  value. Whatever the callbacks do, no exception ever leaves \<open>setState\<close>, and a pass of
  \<open>notify\<close> whose callback at slot \<open>i\<close> raised goes on with slot \<open>i + 1\<close>, from the store the
  callback left and the line on the console.
\<close>

theorem listener_errors_are_contained:
  assumes "listeners s K = Some es"
    and "strict_neq (state s K) v"
    and "\<forall>c \<in> set (members es). quiet (B c v ((state s)(K := v)))"
    and "length es + 3 \<le> n"
  shows "setState n B K v s =
           (Normal, s\<lparr>state := (state s)(K := v),
                      trace := trace s @ Notified K v
                                # concat (map (slot_trace B K v ((state s)(K := v))) es)\<rparr>)
         \<and> calls_for K (new_events s (snd (setState n B K v s))) = members es
         \<and> (\<forall>c \<in> set (members es). B c v ((state s)(K := v)) \<noteq> [] \<longrightarrow>
               ConsoleError K c \<in> set (new_events s (snd (setState n B K v s))))
         \<and> state (snd (setState n B K v s)) K = v
         \<and> (\<forall>n' B' k' v' s'. fst (setState n' B' k' v' s') \<noteq> Raised)
         \<and> (\<forall>n' B' i t es' cb t'.
               listeners t K = Some es' \<and> i < length es' \<and> es' ! i = Some cb
               \<and> run n' B' (B' cb v (state t)) (t\<lparr>trace := trace t @ [Called cb K v (state t K)]\<rparr>)
                   = (Raised, t')
               \<longrightarrow> forEach (Suc n') B' K v i t = forEach n' B' K v (i + 1) (console_error K cb t'))"
proof -
  let ?st = "(state s)(K := v)"
  let ?new = "Notified K v # concat (map (slot_trace B K v ?st) es)"
  have r: "setState n B K v s = (Normal, s\<lparr>state := ?st, trace := trace s @ ?new\<rparr>)"
    using assms by (rule setState_quiet)
  have ne: "new_events s (snd (setState n B K v s)) = ?new"
    unfolding r by (simp add: new_events_def)
  have calls: "calls_for K ?new = members es"
    using calls_for_slot_trace [of K B v ?st es]
    by (simp add: calls_for_def List.map_filter_simps)
  have logged: "\<forall>c \<in> set (members es). B c v ?st \<noteq> [] \<longrightarrow> ConsoleError K c \<in> set ?new"
  proof (intro ballI impI)
    fix c assume "c \<in> set (members es)" "B c v ?st \<noteq> []"
    then have "Some c \<in> set es" "ConsoleError K c \<in> set (slot_trace B K v ?st (Some c))"
      by (simp_all add: set_members)
    then have "\<exists>e \<in> set es. ConsoleError K c \<in> set (slot_trace B K v ?st e)"
      by (rule bexI [rotated])
    then show "ConsoleError K c \<in> set ?new" by simp
  qed
  have kept: "state (snd (setState n B K v s)) K = v" unfolding r by simp
  have contained: "\<forall>n' B' k' v' s'. fst (setState n' B' k' v' s') \<noteq> Raised"
    using no_raise_all by blast
  have goes_on: "\<forall>n' B' i t es' cb t'.
               listeners t K = Some es' \<and> i < length es' \<and> es' ! i = Some cb
               \<and> run n' B' (B' cb v (state t)) (t\<lparr>trace := trace t @ [Called cb K v (state t K)]\<rparr>)
                   = (Raised, t')
               \<longrightarrow> forEach (Suc n') B' K v i t = forEach n' B' K v (i + 1) (console_error K cb t')"
    by (simp add: try_catch_def)
  show ?thesis
  proof (intro conjI)
    show "setState n B K v s = (Normal, s\<lparr>state := ?st, trace := trace s @ ?new\<rparr>)" by (rule r)
    show "calls_for K (new_events s (snd (setState n B K v s))) = members es"
      unfolding ne by (rule calls)
    show "\<forall>c \<in> set (members es). B c v ?st \<noteq> [] \<longrightarrow>
            ConsoleError K c \<in> set (new_events s (snd (setState n B K v s)))"
      unfolding ne by (rule logged)
    show "state (snd (setState n B K v s)) K = v" by (rule kept)
    show "\<forall>n' B' k' v' s'. fst (setState n' B' k' v' s') \<noteq> Raised" by (rule contained)
    show "\<forall>n' B' i t es' cb t'.
               listeners t K = Some es' \<and> i < length es' \<and> es' ! i = Some cb
               \<and> run n' B' (B' cb v (state t)) (t\<lparr>trace := trace t @ [Called cb K v (state t K)]\<rparr>)
                   = (Raised, t')
               \<longrightarrow> forEach (Suc n') B' K v i t = forEach n' B' K v (i + 1) (console_error K cb t')"
      by (rule goes_on)
  qed
qed

theorem listener_errors_are_contained_witness:
  "listeners ex_store ''activeConference'' = Some [Some 0, Some 1]
   \<and> strict_neq (state ex_store ''activeConference'') (Str ''SEC'')
   \<and> ex_thrower 0 (Str ''SEC'') ((state ex_store)(''activeConference'' := Str ''SEC'')) = [Throw]
   \<and> fst (setState 5 ex_thrower ''activeConference'' (Str ''SEC'') ex_store) = Normal
   \<and> new_events ex_store (snd (setState 5 ex_thrower ''activeConference'' (Str ''SEC'') ex_store))
       = [Notified ''activeConference'' (Str ''SEC''),
          Called 0 ''activeConference'' (Str ''SEC'') (Str ''SEC''),
          ConsoleError ''activeConference'' 0,
          Called 1 ''activeConference'' (Str ''SEC'') (Str ''SEC'')]
   \<and> state (snd (setState 5 ex_thrower ''activeConference'' (Str ''SEC'') ex_store))
        ''activeConference'' = Str ''SEC''"
proof -
  have l: "listeners ex_store ''activeConference'' = Some [Some 0, Some 1]"
    by (simp add: ex_store_def)
  have c: "strict_neq (state ex_store ''activeConference'') (Str ''SEC'')"
    by (simp add: ex_store_def strict_neq_def)
  have q: "\<forall>c \<in> set (members [Some 0, Some 1]).
             quiet (ex_thrower c (Str ''SEC'') ((state ex_store)(''activeConference'' := Str ''SEC'')))"
    by (simp add: ex_thrower_def members_Cons members_def List.map_filter_simps)
  have f: "length [Some (0::nat), Some 1] + 3 \<le> 5" by simp
  show ?thesis
    using l c
      listener_errors_are_contained [where B = ex_thrower and s = ex_store and v = "Str ''SEC''"
        and K = "''activeConference''" and es = "[Some 0, Some 1]" and n = 5, OF l c q f]
    by (simp add: new_events_def ex_thrower_def ex_store_def)
qed
section \<open>Rounding to a double\<close>

lemma expo_bounds:
  assumes "x \<noteq> 0"
  shows "2 powi expo x \<le> \<bar>x\<bar> \<and> \<bar>x\<bar> < 2 powi (expo x + 1)"
proof (cases "1 \<le> \<bar>x\<bar>")
  case True
  define n where "n = \<lfloor>\<bar>x\<bar>\<rfloor>"
  have n: "0 < n" using True unfolding n_def by linarith
  have e: "expo x = bitlen n - 1" using True by (simp add: expo_def n_def)
  have b: "2 ^ nat (bitlen n - 1) \<le> n" "n < 2 ^ nat (bitlen n)"
    using bitlen_bounds [OF n] by simp_all
  have bl: "1 \<le> bitlen n" using n by (simp add: bitlen_alt_def)
  have "(2::real) powi (bitlen n - 1) = 2 ^ nat (bitlen n - 1)"
    using bl by (simp add: power_int_def)
  also have "\<dots> = of_int (2 ^ nat (bitlen n - 1))" by simp
  also have "\<dots> \<le> of_int n" using b(1) by (simp only: of_int_le_iff)
  also have "\<dots> \<le> \<bar>x\<bar>" unfolding n_def by simp
  finally have lo: "2 powi expo x \<le> \<bar>x\<bar>" unfolding e .
  have "n + 1 \<le> 2 ^ nat (bitlen n)" using b(2) by simp
  then have "of_int (n + 1) \<le> (of_int (2 ^ nat (bitlen n)) :: real)" by (simp only: of_int_le_iff)
  moreover have "\<bar>x\<bar> < of_int (n + 1)" unfolding n_def by linarith
  ultimately have "\<bar>x\<bar> < 2 ^ nat (bitlen n)" by simp
  also have "\<dots> = 2 powi (bitlen n)" using bl by (simp add: power_int_def)
  finally have hi: "\<bar>x\<bar> < 2 powi (expo x + 1)" unfolding e by simp
  show ?thesis using lo hi by simp
next
  case False
  define y where "y = 1 / \<bar>x\<bar>"
  define z where "z = \<lceil>y\<rceil> - 1"
  have x: "0 < \<bar>x\<bar>" "\<bar>x\<bar> < 1" using assms False by simp_all
  have y: "1 < y" unfolding y_def using x by simp
  have z: "0 < z" unfolding z_def using y by linarith
  have zy: "of_int z < y" "y \<le> of_int z + 1" unfolding z_def by linarith+
  have e: "expo x = - bitlen z" using False by (simp add: expo_def z_def y_def)
  have b: "2 ^ nat (bitlen z - 1) \<le> z" "z < 2 ^ nat (bitlen z)"
    using bitlen_bounds [OF z] by simp_all
  have bl: "1 \<le> bitlen z" using z by (simp add: bitlen_alt_def)
  have xy: "\<bar>x\<bar> = 1 / y" unfolding y_def by simp
  have "z + 1 \<le> 2 ^ nat (bitlen z)" using b(2) by simp
  then have "of_int (z + 1) \<le> (of_int (2 ^ nat (bitlen z)) :: real)" by (simp only: of_int_le_iff)
  then have "y \<le> 2 ^ nat (bitlen z)" using zy by simp
  then have "1 / 2 ^ nat (bitlen z) \<le> 1 / y" using y by (simp add: frac_le)
  moreover have "(2::real) powi (- bitlen z) = 1 / 2 ^ nat (bitlen z)"
    using bl by (simp add: power_int_def field_simps)
  ultimately have lo: "2 powi expo x \<le> \<bar>x\<bar>" unfolding e xy by simp
  have "real_of_int (2 ^ nat (bitlen z - 1)) \<le> real_of_int z"
    using b(1) by (rule of_int_le_iff [THEN iffD2])
  then have "2 ^ nat (bitlen z - 1) \<le> real_of_int z" by simp
  then have "2 ^ nat (bitlen z - 1) < y" using zy by linarith
  then have "1 / y < 1 / 2 ^ nat (bitlen z - 1)" by (simp add: frac_less2)
  moreover have "(2::real) powi (- bitlen z + 1) = 1 / 2 ^ nat (bitlen z - 1)"
  proof -
    have "- bitlen z + 1 = - (bitlen z - 1)" by simp
    then show ?thesis using bl by (simp only: power_int_minus_divide) (simp add: power_int_def)
  qed
  ultimately have hi: "\<bar>x\<bar> < 2 powi (expo x + 1)" unfolding e xy by simp
  show ?thesis using lo hi by simp
qed

lemma expo_eqI:
  assumes "2 powi e \<le> \<bar>x\<bar>" "\<bar>x\<bar> < 2 powi (e + 1)"
  shows "expo x = e"
proof -
  have "x \<noteq> 0"
  proof
    assume "x = 0"
    then have "2 powi e \<le> (0::real)" using assms(1) by simp
    moreover have "(0::real) < 2 powi e" by simp
    ultimately show False by linarith
  qed
  then have b: "2 powi expo x \<le> \<bar>x\<bar>" "\<bar>x\<bar> < 2 powi (expo x + 1)"
    using expo_bounds by simp_all
  have "\<not> e < expo x"
  proof
    assume "e < expo x"
    then have "(2::real) powi (e + 1) \<le> 2 powi expo x" by (intro power_int_increasing) simp_all
    then show False using assms(2) b(1) by linarith
  qed
  moreover have "\<not> expo x < e"
  proof
    assume "expo x < e"
    then have "(2::real) powi (expo x + 1) \<le> 2 powi e" by (intro power_int_increasing) simp_all
    then show False using assms(1) b(2) by linarith
  qed
  ultimately show ?thesis by simp
qed

lemma expo_minus [simp]: "expo (- x) = expo x"
  by (simp add: expo_def)

lemma rne_of_int [simp]: "rne (of_int n) = n"
  by (simp add: rne_def)

lemma rne_bounds: "\<lfloor>x\<rfloor> \<le> rne x \<and> rne x \<le> \<lfloor>x\<rfloor> + 1"
  by (simp add: rne_def Let_def)

lemma rne_mono:
  assumes "x \<le> y"
  shows "rne x \<le> rne y"
proof (cases "\<lfloor>x\<rfloor> = \<lfloor>y\<rfloor>")
  case True
  then show ?thesis using assms by (auto simp: rne_def Let_def)
next
  case False
  then have "\<lfloor>x\<rfloor> + 1 \<le> \<lfloor>y\<rfloor>" using floor_mono [OF assms] by simp
  then show ?thesis using rne_bounds [of x] rne_bounds [of y] by linarith
qed

lemma rne_minus: "rne (- x) = - rne x"
proof (cases "x \<in> \<int>")
  case True
  then obtain n where "x = of_int n" by (auto elim: Ints_cases)
  then have "- x = of_int (- n)" by simp
  then show ?thesis unfolding \<open>x = of_int n\<close> by (simp only: rne_of_int)
next
  case False
  have ne: "x \<noteq> of_int \<lfloor>x\<rfloor>"
  proof
    assume "x = of_int \<lfloor>x\<rfloor>"
    then show False using False Ints_of_int [of "\<lfloor>x\<rfloor>"] by metis
  qed
  then have f: "\<lfloor>- x\<rfloor> = - \<lfloor>x\<rfloor> - 1"
    by (simp add: floor_minus ceiling_altdef)
  have r: "0 < x - of_int \<lfloor>x\<rfloor>" using ne by linarith
  show ?thesis
    unfolding rne_def Let_def f using r by auto
qed

lemma rne_error: "\<bar>of_int (rne x) - x\<bar> \<le> 1 / 2"
  unfolding rne_def Let_def by (auto simp: abs_if) linarith+

lemma double_zero [simp]: "double 0 = 0"
  by (simp add: double_def)

lemma double_minus: "double (- x) = - double x"
  by (simp add: double_def rne_minus)

lemma double_eval:
  assumes "2 powi (e + 52) \<le> \<bar>x\<bar>" "\<bar>x\<bar> < 2 powi (e + 53)"
  shows "double x = of_int (rne (x / 2 powi e)) * 2 powi e"
proof -
  have "expo x = e + 52" using assms by (intro expo_eqI) (simp_all add: add.commute add.left_commute)
  moreover have "x \<noteq> 0"
  proof
    assume "x = 0"
    then have "2 powi (e + 52) \<le> (0::real)" using assms(1) by simp
    moreover have "(0::real) < 2 powi (e + 52)" by simp
    ultimately show False by linarith
  qed
  ultimately show ?thesis by (simp add: double_def)
qed

lemma scaled_bounds:
  assumes "0 < x"
  shows "2 ^ 52 \<le> x / 2 powi (expo x - 52) \<and> x / 2 powi (expo x - 52) < 2 ^ 53"
proof -
  have x: "x \<noteq> 0" "\<bar>x\<bar> = x" using assms by simp_all
  have b: "2 powi expo x \<le> x" "x < 2 powi (expo x + 1)"
    using expo_bounds [OF x(1)] x(2) by simp_all
  have u: "(0::real) < 2 powi (expo x - 52)" by simp
  have a: "(2::real) powi expo x = 2 ^ 52 * 2 powi (expo x - 52)"
    using power_int_add [of "2::real" 52 "expo x - 52"] by simp
  have c: "(2::real) powi (expo x + 1) = 2 ^ 53 * 2 powi (expo x - 52)"
    using power_int_add [of "2::real" 53 "expo x - 52"] by (simp add: add.commute)
  have "2 ^ 52 \<le> x / 2 powi (expo x - 52)"
    using b(1) u unfolding a by (simp add: pos_le_divide_eq)
  moreover have "x / 2 powi (expo x - 52) < 2 ^ 53"
    using b(2) u unfolding c by (simp add: pos_divide_less_eq)
  ultimately show ?thesis by simp
qed

lemma mantissa_bounds:
  assumes "0 < x"
  shows "2 ^ 52 \<le> rne (x / 2 powi (expo x - 52)) \<and> rne (x / 2 powi (expo x - 52)) \<le> 2 ^ 53"
proof -
  let ?s = "x / 2 powi (expo x - 52)"
  have s: "of_int (2 ^ 52) \<le> ?s" "?s \<le> of_int (2 ^ 53)"
    using scaled_bounds [OF assms] by simp_all
  have "rne (of_int (2 ^ 52)) \<le> rne ?s" using s(1) by (rule rne_mono)
  moreover have "rne ?s \<le> rne (of_int (2 ^ 53))" using s(2) by (rule rne_mono)
  ultimately show ?thesis by (simp only: rne_of_int) 
qed

lemma double_pos_bounds:
  assumes "0 < x"
  shows "2 powi expo x \<le> double x \<and> double x \<le> 2 powi (expo x + 1)"
proof -
  let ?u = "(2::real) powi (expo x - 52)"
  let ?m = "rne (x / ?u)"
  have d: "double x = of_int ?m * ?u" using assms by (simp add: double_def)
  have u: "0 < ?u" by simp
  have a: "(2::real) powi expo x = 2 ^ 52 * ?u"
    using power_int_add [of "2::real" 52 "expo x - 52"] by simp
  have c: "(2::real) powi (expo x + 1) = 2 ^ 53 * ?u"
    using power_int_add [of "2::real" 53 "expo x - 52"] by (simp add: add.commute)
  have m: "2 ^ 52 \<le> ?m" "?m \<le> 2 ^ 53" using mantissa_bounds [OF assms] by simp_all
  have "real_of_int (2 ^ 52) \<le> of_int ?m" using m(1) by (rule of_int_le_iff [THEN iffD2])
  then have lo: "2 ^ 52 * ?u \<le> of_int ?m * ?u" using u by (simp add: mult_right_mono)
  have "real_of_int ?m \<le> of_int (2 ^ 53)" using m(2) by (rule of_int_le_iff [THEN iffD2])
  then have hi: "of_int ?m * ?u \<le> 2 ^ 53 * ?u" using u by (simp add: mult_right_mono)
  show ?thesis unfolding d a c using lo hi by simp
qed

lemma double_nonneg: "0 \<le> x \<Longrightarrow> 0 \<le> double x"
proof (cases "x = 0")
  case False
  assume "0 \<le> x"
  then have "0 < x" using False by simp
  then have "2 powi expo x \<le> double x" using double_pos_bounds by simp
  moreover have "(0::real) < 2 powi expo x" by simp
  ultimately show ?thesis by linarith
qed simp

lemma double_mono_pos:
  assumes "0 < x" "x \<le> y"
  shows "double x \<le> double y"
proof -
  have y: "0 < y" using assms by simp
  have bx: "2 powi expo x \<le> x" "x < 2 powi (expo x + 1)"
    using expo_bounds [of x] assms(1) by simp_all
  have by': "2 powi expo y \<le> y" "y < 2 powi (expo y + 1)"
    using expo_bounds [of y] y by simp_all
  have le: "expo x \<le> expo y"
  proof (rule ccontr)
    assume "\<not> expo x \<le> expo y"
    then have "(2::real) powi (expo y + 1) \<le> 2 powi expo x"
      by (intro power_int_increasing) simp_all
    then show False using bx(1) by'(2) assms(2) by linarith
  qed
  show ?thesis
  proof (cases "expo x = expo y")
    case True
    have "x / 2 powi (expo y - 52) \<le> y / 2 powi (expo y - 52)"
      using assms(2) by (simp add: divide_right_mono)
    then have "rne (x / 2 powi (expo y - 52)) \<le> rne (y / 2 powi (expo y - 52))"
      by (rule rne_mono)
    then have "real_of_int (rne (x / 2 powi (expo y - 52))) \<le> of_int (rne (y / 2 powi (expo y - 52)))"
      by (rule of_int_le_iff [THEN iffD2])
    then show ?thesis using assms(1) y True by (simp add: double_def mult_right_mono)
  next
    case False
    then have "expo x + 1 \<le> expo y" using le by simp
    then have "(2::real) powi (expo x + 1) \<le> 2 powi expo y"
      by (intro power_int_increasing) simp_all
    then show ?thesis using double_pos_bounds [OF assms(1)] double_pos_bounds [OF y] by linarith
  qed
qed

lemma double_mono:
  assumes "x \<le> y"
  shows "double x \<le> double y"
proof -
  consider "0 < x" | "x \<le> 0" "0 \<le> y" | "y < 0" by linarith
  then show ?thesis
  proof cases
    case 1
    then show ?thesis using assms by (rule double_mono_pos)
  next
    case 2
    have "0 \<le> double (- x)" using 2(1) by (intro double_nonneg) simp
    then have "double x \<le> 0" by (simp add: double_minus)
    moreover have "0 \<le> double y" using 2(2) by (rule double_nonneg)
    ultimately show ?thesis by linarith
  next
    case 3
    then have "0 < - y" "- y \<le> - x" using assms by simp_all
    then have "double (- y) \<le> double (- x)" by (rule double_mono_pos)
    then show ?thesis by (simp add: double_minus)
  qed
qed

lemma double_exact_pos:
  assumes "0 < m" "m \<le> 2 ^ 53"
  shows "double (of_int m * 2 powi e) = of_int m * 2 powi e"
proof -
  define x where "x = real_of_int m * 2 powi e"
  define k where "k = e - (expo x - 52)"
  have x: "0 < x" unfolding x_def using assms(1) by simp
  have s: "x / 2 powi (expo x - 52) = of_int m * 2 powi k"
    unfolding k_def x_def using power_int_diff [of "2::real" e "expo x - 52"] by (simp add: x_def)
  have sb: "2 ^ 52 \<le> of_int m * (2::real) powi k"
    using scaled_bounds [OF x] unfolding s by simp
  have "real_of_int m \<le> of_int (2 ^ 53)" using assms(2) by (rule of_int_le_iff [THEN iffD2])
  then have m53: "real_of_int m \<le> 2 ^ 53" by simp
  have k: "- 1 \<le> k"
  proof (rule ccontr)
    assume "\<not> - 1 \<le> k"
    then have "k \<le> - 2" by simp
    then have "(2::real) powi k \<le> 2 powi (- 2)" by (intro power_int_increasing) simp_all
    then have "(2::real) powi k \<le> 1 / 4" by (simp add: power_int_minus_divide)
    then have "of_int m * (2::real) powi k \<le> 2 ^ 53 * (1 / 4)"
      using m53 by (intro mult_mono) simp_all
    then show False using sb by simp
  qed
  have "\<exists>n. of_int m * (2::real) powi k = of_int n"
  proof (cases "0 \<le> k")
    case True
    then have "of_int m * (2::real) powi k = of_int (m * 2 ^ nat k)"
      by (simp add: power_int_def)
    then show ?thesis by blast
  next
    case False
    then have k1: "k = - 1" using k by simp
    have h: "of_int m * (2::real) powi k = of_int m / 2"
      unfolding k1 by (simp add: power_int_minus_divide)
    have "2 ^ 52 \<le> real_of_int m / 2" using sb unfolding h .
    then have "2 ^ 53 \<le> real_of_int m" by simp
    then have "real_of_int m = 2 ^ 53" using m53 by simp
    then have "of_int m * (2::real) powi k = of_int (2 ^ 52)"
      unfolding h by simp
    then show ?thesis by blast
  qed
  then obtain n where n: "of_int m * (2::real) powi k = of_int n" by blast
  have "double x = of_int (rne (x / 2 powi (expo x - 52))) * 2 powi (expo x - 52)"
    using x by (simp add: double_def)
  also have "\<dots> = of_int n * 2 powi (expo x - 52)" unfolding s n by (simp only: rne_of_int)
  also have "\<dots> = x / 2 powi (expo x - 52) * 2 powi (expo x - 52)" unfolding s n ..
  also have "\<dots> = x" by simp
  finally show ?thesis unfolding x_def .
qed

lemma double_exact:
  assumes "\<bar>m\<bar> \<le> 2 ^ 53"
  shows "double (of_int m * 2 powi e) = of_int m * 2 powi e"
proof -
  consider "m = 0" | "0 < m" | "m < 0" by linarith
  then show ?thesis
  proof cases
    case 1
    then show ?thesis by simp
  next
    case 2
    then show ?thesis using assms by (intro double_exact_pos) simp_all
  next
    case 3
    then have "double (of_int (- m) * 2 powi e) = of_int (- m) * 2 powi e"
      using assms by (intro double_exact_pos) simp_all
    then show ?thesis using double_minus [of "of_int m * 2 powi e"] by simp
  qed
qed

lemma double_of_int: "\<bar>m\<bar> \<le> 2 ^ 53 \<Longrightarrow> double (of_int m) = of_int m"
  using double_exact [of m 0] by simp

lemma double_one [simp]: "double 1 = 1"
  using double_of_int [of 1] by simp

lemma double_idem: "double (double x) = double x"
proof -
  have pos: "double (double x) = double x" if "0 < x" for x
  proof -
    have d: "double x = of_int (rne (x / 2 powi (expo x - 52))) * 2 powi (expo x - 52)"
      using that by (simp add: double_def)
    have "0 < rne (x / 2 powi (expo x - 52))" "rne (x / 2 powi (expo x - 52)) \<le> 2 ^ 53"
      using mantissa_bounds [OF that] by simp_all
    then show ?thesis unfolding d by (rule double_exact_pos)
  qed
  consider "x = 0" | "0 < x" | "x < 0" by linarith
  then show ?thesis
  proof cases
    case 1
    then show ?thesis by simp
  next
    case 2
    then show ?thesis by (rule pos)
  next
    case 3
    then have "double (double (- x)) = double (- x)" by (intro pos) simp
    then show ?thesis by (simp add: double_minus)
  qed
qed

lemma double_error:
  "\<bar>double x - x\<bar> \<le> \<bar>x\<bar> / 2 ^ 53"
proof (cases "x = 0")
  case True
  then show ?thesis by simp
next
  case False
  let ?u = "(2::real) powi (expo x - 52)"
  have u: "0 < ?u" by simp
  have d: "double x = of_int (rne (x / ?u)) * ?u" using False by (simp add: double_def)
  have "double x - x = (of_int (rne (x / ?u)) - x / ?u) * ?u"
    unfolding d by (simp add: algebra_simps)
  then have "\<bar>double x - x\<bar> = \<bar>of_int (rne (x / ?u)) - x / ?u\<bar> * ?u"
    by (simp add: abs_mult)
  also have "\<dots> \<le> 1 / 2 * ?u" using rne_error [of "x / ?u"] u by (intro mult_right_mono) simp_all
  also have "\<dots> = 2 powi expo x / 2 ^ 53"
    using power_int_diff [of "2::real" "expo x" 52] by simp
  also have "\<dots> \<le> \<bar>x\<bar> / 2 ^ 53"
    using expo_bounds [OF False] by (simp add: divide_right_mono)
  finally show ?thesis .
qed


section \<open>The similarity network\<close>

lemma inner_loop_eq:
  "inner_loop ss i j links =
     links @ map (\<lambda>j. \<lparr>source = school (ss ! i), target = school (ss ! j),
                       similarity = calculateSimilarity (ss ! i) (ss ! j)\<rparr>)
               (filter (\<lambda>j. calculateSimilarity (ss ! i) (ss ! j) > similarityThreshold) [j..<length ss])"
proof (induction ss i j links rule: inner_loop.induct)
  case (1 ss i j links)
  show ?case
  proof (cases "j < length ss")
    case True
    then show ?thesis
      using 1 by (subst inner_loop.simps) (simp add: upt_conv_Cons Let_def)
  next
    case False
    then show ?thesis by (subst inner_loop.simps) simp
  qed
qed

lemma outer_loop_eq:
  "outer_loop ss i links =
     links @ concat (map (\<lambda>i. inner_loop ss i (i + 1) []) [i..<length ss])"
proof (induction ss i links rule: outer_loop.induct)
  case (1 ss i links)
  show ?case
  proof (cases "i < length ss")
    case True
    have split: "inner_loop ss i (Suc i) links = links @ inner_loop ss i (Suc i) []"
      by (simp add: inner_loop_eq)
    show ?thesis
      using 1 True by (subst outer_loop.simps) (simp add: upt_conv_Cons split)
  next
    case False
    then show ?thesis by (subst outer_loop.simps) simp
  qed
qed

lemma set_inner_loop:
  "set (inner_loop ss i j []) =
     {\<lparr>source = school (ss ! i), target = school (ss ! j'),
       similarity = calculateSimilarity (ss ! i) (ss ! j')\<rparr> | j'.
       j \<le> j' \<and> j' < length ss \<and> calculateSimilarity (ss ! i) (ss ! j') > similarityThreshold}"
  unfolding inner_loop_eq by auto

lemma set_prepareData:
  "set (prepareData ss) =
     {\<lparr>source = school (ss ! i), target = school (ss ! j),
       similarity = calculateSimilarity (ss ! i) (ss ! j)\<rparr> | i j.
       i < j \<and> j < length ss \<and> calculateSimilarity (ss ! i) (ss ! j) > similarityThreshold}"
proof -
  have "set (prepareData ss) = (\<Union>i \<in> {0..<length ss}. set (inner_loop ss i (i + 1) []))"
    unfolding prepareData_def outer_loop_eq by simp
  also have "\<dots> = {\<lparr>source = school (ss ! i), target = school (ss ! j),
       similarity = calculateSimilarity (ss ! i) (ss ! j)\<rparr> | i j.
       i < j \<and> j < length ss \<and> calculateSimilarity (ss ! i) (ss ! j) > similarityThreshold}"
  proof (intro set_eqI iffI)
    fix l
    assume "l \<in> (\<Union>i \<in> {0..<length ss}. set (inner_loop ss i (i + 1) []))"
    then obtain i j where "i < length ss" "i + 1 \<le> j" "j < length ss"
      "calculateSimilarity (ss ! i) (ss ! j) > similarityThreshold"
      "l = \<lparr>source = school (ss ! i), target = school (ss ! j),
            similarity = calculateSimilarity (ss ! i) (ss ! j)\<rparr>"
      unfolding set_inner_loop by auto
    then show "l \<in> {\<lparr>source = school (ss ! i), target = school (ss ! j),
       similarity = calculateSimilarity (ss ! i) (ss ! j)\<rparr> | i j.
       i < j \<and> j < length ss \<and> calculateSimilarity (ss ! i) (ss ! j) > similarityThreshold}"
      by (intro CollectI exI [of _ i] exI [of _ j]) simp
  next
    fix l
    assume "l \<in> {\<lparr>source = school (ss ! i), target = school (ss ! j),
       similarity = calculateSimilarity (ss ! i) (ss ! j)\<rparr> | i j.
       i < j \<and> j < length ss \<and> calculateSimilarity (ss ! i) (ss ! j) > similarityThreshold}"
    then obtain i j where ij: "i < j" "j < length ss"
      "calculateSimilarity (ss ! i) (ss ! j) > similarityThreshold"
      "l = \<lparr>source = school (ss ! i), target = school (ss ! j),
            similarity = calculateSimilarity (ss ! i) (ss ! j)\<rparr>"
      by blast
    then have "l \<in> set (inner_loop ss i (i + 1) [])"
      unfolding set_inner_loop by (intro CollectI exI [of _ j]) simp
    moreover have "i \<in> {0..<length ss}" using ij by simp
    ultimately show "l \<in> (\<Union>i \<in> {0..<length ss}. set (inner_loop ss i (i + 1) []))"
      by blast
  qed
  finally show ?thesis .
qed

lemma abs_fsub_commute: "\<bar>fsub x y\<bar> = \<bar>fsub y x\<bar>"
proof -
  have "fsub x y = - fsub y x"
    unfolding fsub_def using double_minus [of "y - x"] by simp
  then show ?thesis by simp
qed

lemma calculateSimilarity_sym: "calculateSimilarity a b = calculateSimilarity b a"
proof -
  have "bpmDiff a b = bpmDiff b a" "durationDiff a b = durationDiff b a"
    "tropeDiff a b = tropeDiff b a"
    unfolding bpmDiff_def durationDiff_def tropeDiff_def by (rule abs_fsub_commute)+
  then have "bpmSim a b = bpmSim b a" "durationSim a b = durationSim b a"
    "tropeSim a b = tropeSim b a"
    unfolding bpmSim_def durationSim_def tropeSim_def by simp_all
  moreover have "confSim a b = confSim b a" by (simp add: confSim_def)
  ultimately show ?thesis unfolding calculateSimilarity_def by simp
qed

lemma edge_between_iff:
  assumes "distinct (map school ss)" "i < length ss" "j < length ss" "i \<noteq> j"
  shows "edge_between (prepareData ss) (ss ! i) (ss ! j) \<longleftrightarrow>
         calculateSimilarity (ss ! i) (ss ! j) > similarityThreshold"
proof -
  have inj: "\<And>a b. a < length ss \<Longrightarrow> b < length ss \<Longrightarrow> school (ss ! a) = school (ss ! b) \<Longrightarrow> a = b"
    using assms(1) by (metis distinct_conv_nth length_map nth_map)
  show ?thesis
  proof
    assume "edge_between (prepareData ss) (ss ! i) (ss ! j)"
    then obtain l where l: "l \<in> set (prepareData ss)"
      and st: "(source l = school (ss ! i) \<and> target l = school (ss ! j)) \<or>
               (source l = school (ss ! j) \<and> target l = school (ss ! i))"
      unfolding edge_between_def by blast
    from l obtain a b where ab: "a < b" "b < length ss"
      "calculateSimilarity (ss ! a) (ss ! b) > similarityThreshold"
      "l = \<lparr>source = school (ss ! a), target = school (ss ! b),
            similarity = calculateSimilarity (ss ! a) (ss ! b)\<rparr>"
      unfolding set_prepareData by blast
    from st show "calculateSimilarity (ss ! i) (ss ! j) > similarityThreshold"
    proof
      assume "source l = school (ss ! i) \<and> target l = school (ss ! j)"
      then have "a = i" "b = j" using ab inj assms by auto
      then show ?thesis using ab by simp
    next
      assume "source l = school (ss ! j) \<and> target l = school (ss ! i)"
      then have "a = j" "b = i" using ab inj assms by auto
      then show ?thesis using ab calculateSimilarity_sym by simp
    qed
  next
    assume gt: "calculateSimilarity (ss ! i) (ss ! j) > similarityThreshold"
    show "edge_between (prepareData ss) (ss ! i) (ss ! j)"
    proof (cases "i < j")
      case True
      then have "\<lparr>source = school (ss ! i), target = school (ss ! j),
            similarity = calculateSimilarity (ss ! i) (ss ! j)\<rparr> \<in> set (prepareData ss)"
        unfolding set_prepareData using assms gt by blast
      then show ?thesis unfolding edge_between_def by force
    next
      case False
      then have "j < i" using assms by simp
      moreover have "calculateSimilarity (ss ! j) (ss ! i) > similarityThreshold"
        using gt calculateSimilarity_sym by simp
      ultimately have "\<lparr>source = school (ss ! j), target = school (ss ! i),
            similarity = calculateSimilarity (ss ! j) (ss ! i)\<rparr> \<in> set (prepareData ss)"
        unfolding set_prepareData using assms by blast
      then show ?thesis unfolding edge_between_def by force
    qed
  qed
qed

lemma clipped_bounds:
  assumes "0 \<le> d" "0 < k"
  shows "0 \<le> fsub 1 (min (fdiv d k) 1) \<and> fsub 1 (min (fdiv d k) 1) \<le> 1"
proof -
  have "0 \<le> d / k" using assms by simp
  then have "0 \<le> fdiv d k" unfolding fdiv_def by (rule double_nonneg)
  then have m: "0 \<le> min (fdiv d k) 1" "min (fdiv d k) 1 \<le> 1" by simp_all
  have "double 0 \<le> double (1 - min (fdiv d k) 1)" using m(2) by (intro double_mono) simp
  moreover have "double (1 - min (fdiv d k) 1) \<le> double 1" using m(1) by (intro double_mono) simp
  ultimately show ?thesis unfolding fsub_def by simp
qed

lemma sim_bounds:
  "0 \<le> bpmSim a b" "bpmSim a b \<le> 1" "0 \<le> durationSim a b" "durationSim a b \<le> 1"
  "0 \<le> tropeSim a b" "tropeSim a b \<le> 1"
  using clipped_bounds [of "bpmDiff a b" 100] clipped_bounds [of "durationDiff a b" 60]
    clipped_bounds [of "tropeDiff a b" 10]
  unfolding bpmSim_def durationSim_def tropeSim_def bpmDiff_def durationDiff_def tropeDiff_def
  by simp_all

lemma literals:
  "double 0.3 = 5404319552844595 / 2 ^ 54" "double 0.2 = 3602879701896397 / 2 ^ 54"
  "double 0.7 = 3152519739159347 / 2 ^ 52"
  by code_simp+

text \<open>How far the computed score can be from the exact one.\<close>

lemma round_err:
  assumes "\<bar>x1 - x\<bar> \<le> e" "\<bar>x\<bar> \<le> B"
  shows "\<bar>double x1 - x\<bar> \<le> e + (B + e) / 2 ^ 53"
proof -
  have "\<bar>x1\<bar> \<le> B + e" using assms by linarith
  then have "\<bar>x1\<bar> / 2 ^ 53 \<le> (B + e) / 2 ^ 53" by (simp add: divide_right_mono)
  then have "\<bar>double x1 - x1\<bar> \<le> (B + e) / 2 ^ 53" using double_error [of x1] by linarith
  then show ?thesis using assms(1) by linarith
qed

lemma clipped_error:
  assumes "0 < k"
  shows "\<bar>fsub 1 (min (fdiv \<bar>fsub a b\<bar> k) 1) - (1 - min (\<bar>a - b\<bar> / k) 1)\<bar> \<le> 7 / 2 ^ 53"
proof -
  define d where "d = \<bar>a - b\<bar>"
  define d1 where "d1 = \<bar>double (a - b)\<bar>"
  define q where "q = d / k"
  define q' where "q' = d1 / k"
  define q1 where "q1 = double q'"
  have d: "0 \<le> d" "0 \<le> d1" unfolding d_def d1_def by simp_all
  have q: "0 \<le> q" "0 \<le> q'" unfolding q_def q'_def using d assms by simp_all
  have q1: "0 \<le> q1" unfolding q1_def using q(2) by (rule double_nonneg)
  have "\<bar>d1 - d\<bar> \<le> \<bar>double (a - b) - (a - b)\<bar>" unfolding d_def d1_def by (rule abs_triangle_ineq3)
  also have "\<dots> \<le> d / 2 ^ 53" unfolding d_def by (rule double_error)
  finally have e1: "\<bar>d1 - d\<bar> \<le> d / 2 ^ 53" .
  have "\<bar>q' - q\<bar> = \<bar>d1 - d\<bar> / k"
    unfolding q_def q'_def using assms by (simp add: diff_divide_distrib [symmetric])
  also have "\<dots> \<le> d / 2 ^ 53 / k" using e1 assms by (intro divide_right_mono) simp_all
  also have "\<dots> = q / 2 ^ 53" unfolding q_def by simp
  finally have e2: "\<bar>q' - q\<bar> \<le> q / 2 ^ 53" .
  have e3: "\<bar>q1 - q'\<bar> \<le> q' / 2 ^ 53"
    using double_error [of q'] q(2) unfolding q1_def by simp
  have m: "\<bar>min q1 1 - min q 1\<bar> \<le> 5 / 2 ^ 53"
  proof (cases "q \<le> 2")
    case True
    have "\<bar>q1 - q\<bar> \<le> 5 / 2 ^ 53" using True e2 e3 q unfolding abs_le_iff by (simp | linarith)+
    then show ?thesis unfolding abs_le_iff min_def by (simp | linarith)+
  next
    case False
    have "1 \<le> q'" using False e2 unfolding abs_le_iff by (simp | linarith)+
    then have "double 1 \<le> double q'" by (rule double_mono)
    then have "1 \<le> q1" unfolding q1_def by simp
    then show ?thesis using False by (simp add: min_def)
  qed
  have "\<bar>double (1 - min q1 1) - (1 - min q 1)\<bar> \<le> 5 / 2 ^ 53 + (1 + 5 / 2 ^ 53) / 2 ^ 53"
  proof (rule round_err)
    show "\<bar>1 - min q1 1 - (1 - min q 1)\<bar> \<le> 5 / 2 ^ 53" using m unfolding abs_le_iff by simp
    show "\<bar>1 - min q 1\<bar> \<le> 1" using q(1) unfolding abs_le_iff min_def by simp
  qed
  also have "\<dots> \<le> (7 :: real) / 2 ^ 53" by simp
  finally show ?thesis
    unfolding fsub_def fdiv_def q1_def q'_def d1_def q_def d_def .
qed


lemma weighted_error:
  assumes "\<bar>s1 - s\<bar> \<le> 7 / 2 ^ 53" "0 \<le> s" "s \<le> 1"
  shows "\<bar>fmul s1 (double 0.3) - s * 0.3\<bar> \<le> 3 / 2 ^ 53"
    and "\<bar>fmul s1 (double 0.2) - s * 0.2\<bar> \<le> 2 / 2 ^ 53"
proof -
  have "\<bar>double (s1 * (5404319552844595 / 2 ^ 54)) - s * 0.3\<bar>
        \<le> (5 / 2) / 2 ^ 53 + (3 / 10 + (5 / 2) / 2 ^ 53) / 2 ^ 53"
  proof (rule round_err)
    show "\<bar>s1 * (5404319552844595 / 2 ^ 54) - s * 0.3\<bar> \<le> (5 / 2) / 2 ^ 53"
      using assms unfolding abs_le_iff by (simp | linarith)+
    show "\<bar>s * 0.3\<bar> \<le> 3 / 10" using assms(2,3) unfolding abs_le_iff by (simp | linarith)+
  qed
  also have "\<dots> \<le> (3 :: real) / 2 ^ 53" by simp
  finally show "\<bar>fmul s1 (double 0.3) - s * 0.3\<bar> \<le> 3 / 2 ^ 53"
    unfolding fmul_def literals .
  have "\<bar>double (s1 * (3602879701896397 / 2 ^ 54)) - s * 0.2\<bar>
        \<le> (8 / 5) / 2 ^ 53 + (2 / 10 + (8 / 5) / 2 ^ 53) / 2 ^ 53"
  proof (rule round_err)
    show "\<bar>s1 * (3602879701896397 / 2 ^ 54) - s * 0.2\<bar> \<le> (8 / 5) / 2 ^ 53"
      using assms unfolding abs_le_iff by (simp | linarith)+
    show "\<bar>s * 0.2\<bar> \<le> 2 / 10" using assms(2,3) unfolding abs_le_iff by (simp | linarith)+
  qed
  also have "\<dots> \<le> (2 :: real) / 2 ^ 53" by simp
  finally show "\<bar>fmul s1 (double 0.2) - s * 0.2\<bar> \<le> 2 / 2 ^ 53"
    unfolding fmul_def literals .
qed

lemma exact_sim_bounds:
  "0 \<le> bpmSim_exact a b" "bpmSim_exact a b \<le> 1" "0 \<le> durationSim_exact a b"
  "durationSim_exact a b \<le> 1" "0 \<le> tropeSim_exact a b" "tropeSim_exact a b \<le> 1"
  by (simp_all add: bpmSim_exact_def durationSim_exact_def tropeSim_exact_def)

lemma sim_error:
  "\<bar>bpmSim a b - bpmSim_exact a b\<bar> \<le> 7 / 2 ^ 53"
  "\<bar>durationSim a b - durationSim_exact a b\<bar> \<le> 7 / 2 ^ 53"
  "\<bar>tropeSim a b - tropeSim_exact a b\<bar> \<le> 7 / 2 ^ 53"
  unfolding bpmSim_def durationSim_def tropeSim_def bpmDiff_def durationDiff_def tropeDiff_def
    bpmSim_exact_def durationSim_exact_def tropeSim_exact_def
  by (rule clipped_error, simp)+

lemma confSim_error: "\<bar>confSim a b - confSim_exact a b\<bar> \<le> (1 / 2) / 2 ^ 53"
  by (simp add: confSim_def confSim_exact_def literals)

lemma score_error: "\<bar>calculateSimilarity a b - score_exact a b\<bar> \<le> 1 / 2 ^ 48"
proof -
  define B where "B = bpmSim_exact a b"
  define D where "D = durationSim_exact a b"
  define T where "T = tropeSim_exact a b"
  define C where "C = confSim_exact a b"
  define p1 where "p1 = fmul (bpmSim a b) (double 0.3)"
  define p2 where "p2 = fmul (durationSim a b) (double 0.2)"
  define p3 where "p3 = fmul (tropeSim a b) (double 0.2)"
  define c where "c = confSim a b"
  define t1 where "t1 = fadd p1 p2"
  define t2 where "t2 = fadd t1 p3"
  define t3 where "t3 = fadd t2 c"
  have bd: "0 \<le> B" "B \<le> 1" "0 \<le> D" "D \<le> 1" "0 \<le> T" "T \<le> 1"
    unfolding B_def D_def T_def by (rule exact_sim_bounds)+
  have cb: "0 \<le> C" "C \<le> 3 / 10" unfolding C_def by (simp_all add: confSim_exact_def)
  have e1: "\<bar>p1 - B * 0.3\<bar> \<le> 3 / 2 ^ 53"
    unfolding p1_def B_def by (rule weighted_error(1) [OF sim_error(1) exact_sim_bounds(1,2)])
  have e2: "\<bar>p2 - D * 0.2\<bar> \<le> 2 / 2 ^ 53"
    unfolding p2_def D_def by (rule weighted_error(2) [OF sim_error(2) exact_sim_bounds(3,4)])
  have e3: "\<bar>p3 - T * 0.2\<bar> \<le> 2 / 2 ^ 53"
    unfolding p3_def T_def by (rule weighted_error(2) [OF sim_error(3) exact_sim_bounds(5,6)])
  have e4: "\<bar>c - C\<bar> \<le> (1 / 2) / 2 ^ 53" unfolding c_def C_def by (rule confSim_error)
  have "\<bar>double (p1 + p2) - (B * 0.3 + D * 0.2)\<bar> \<le> 5 / 2 ^ 53 + (1 / 2 + 5 / 2 ^ 53) / 2 ^ 53"
  proof (rule round_err)
    show "\<bar>p1 + p2 - (B * 0.3 + D * 0.2)\<bar> \<le> 5 / 2 ^ 53"
      using e1 e2 unfolding abs_le_iff by (simp | linarith)+
    show "\<bar>B * 0.3 + D * 0.2\<bar> \<le> 1 / 2" using bd unfolding abs_le_iff by (simp | linarith)+
  qed
  also have "\<dots> \<le> (6 :: real) / 2 ^ 53" by simp
  finally have f1: "\<bar>t1 - (B * 0.3 + D * 0.2)\<bar> \<le> 6 / 2 ^ 53" unfolding t1_def fadd_def .
  have "\<bar>double (t1 + p3) - (B * 0.3 + D * 0.2 + T * 0.2)\<bar>
        \<le> 8 / 2 ^ 53 + (7 / 10 + 8 / 2 ^ 53) / 2 ^ 53"
  proof (rule round_err)
    show "\<bar>t1 + p3 - (B * 0.3 + D * 0.2 + T * 0.2)\<bar> \<le> 8 / 2 ^ 53"
      using f1 e3 unfolding abs_le_iff by (simp | linarith)+
    show "\<bar>B * 0.3 + D * 0.2 + T * 0.2\<bar> \<le> 7 / 10"
      using bd unfolding abs_le_iff by (simp | linarith)+
  qed
  also have "\<dots> \<le> (9 :: real) / 2 ^ 53" by simp
  finally have f2: "\<bar>t2 - (B * 0.3 + D * 0.2 + T * 0.2)\<bar> \<le> 9 / 2 ^ 53"
    unfolding t2_def fadd_def .
  have "\<bar>double (t2 + c) - (B * 0.3 + D * 0.2 + T * 0.2 + C)\<bar>
        \<le> (19 / 2) / 2 ^ 53 + (1 + (19 / 2) / 2 ^ 53) / 2 ^ 53"
  proof (rule round_err)
    show "\<bar>t2 + c - (B * 0.3 + D * 0.2 + T * 0.2 + C)\<bar> \<le> (19 / 2) / 2 ^ 53"
      using f2 e4 unfolding abs_le_iff by (simp | linarith)+
    show "\<bar>B * 0.3 + D * 0.2 + T * 0.2 + C\<bar> \<le> 1"
      using bd cb unfolding abs_le_iff by (simp | linarith)+
  qed
  also have "\<dots> \<le> (11 :: real) / 2 ^ 53" by simp
  finally have f3: "\<bar>t3 - (B * 0.3 + D * 0.2 + T * 0.2 + C)\<bar> \<le> 11 / 2 ^ 53"
    unfolding t3_def fadd_def .
  define S where "S = B * 0.3 + D * 0.2 + T * 0.2 + C"
  have S: "0 \<le> S" "S \<le> 1" using bd cb unfolding S_def by simp_all
  have g: "t3 - S \<le> 11 / 2 ^ 53" "S - t3 \<le> 11 / 2 ^ 53"
    using f3 unfolding S_def [symmetric] abs_le_iff by simp_all
  have q1: "t3 / (3152519739159347 / 2 ^ 52) = t3 * (4503599627370496 / 3152519739159347)"
    by simp
  have q2: "S / 0.7 = S * (10 / 7)" by simp
  have "\<bar>double (t3 / (3152519739159347 / 2 ^ 52)) - S / 0.7\<bar>
        \<le> 17 / 2 ^ 53 + (10 / 7 + 17 / 2 ^ 53) / 2 ^ 53"
  proof (rule round_err)
    have "t3 * (4503599627370496 / 3152519739159347) - S * (10 / 7) \<le> 17 / 9007199254740992"
      using g S by simp
    moreover have "S * (10 / 7) - t3 * (4503599627370496 / 3152519739159347)
                   \<le> 17 / 9007199254740992"
      using g S by simp
    ultimately show "\<bar>t3 / (3152519739159347 / 2 ^ 52) - S / 0.7\<bar> \<le> 17 / 2 ^ 53"
      unfolding q1 q2 abs_le_iff by simp
    show "\<bar>S / 0.7\<bar> \<le> 10 / 7" using S unfolding q2 abs_le_iff by simp
  qed
  also have "\<dots> \<le> (1 :: real) / 2 ^ 48" by simp
  finally have main: "\<bar>double (t3 / (3152519739159347 / 2 ^ 52)) - S / 0.7\<bar> \<le> 1 / 2 ^ 48" .
  have l: "calculateSimilarity a b = double (t3 / (3152519739159347 / 2 ^ 52))"
    unfolding calculateSimilarity_def fdiv_def t3_def t2_def t1_def p1_def p2_def p3_def c_def
      literals(3) ..
  have r: "score_exact a b = S / 0.7"
    unfolding score_exact_def S_def B_def D_def T_def C_def ..
  show ?thesis unfolding l r by (rule main)
qed

text \<open>
  Claim C5 read in exact arithmetic is refuted. Iowa and Florida differ by 15 seconds and
  8 tropes and are of different conferences: the formula gives exactly 0.3 + 0.15 + 0.04 =
  0.49, divided by 0.7 that is 0.7, which does not exceed the threshold. The code computes
  0.7000000000000001, which exceeds the double 0.7, and pushes the link.
\<close>

theorem exact_score_at_threshold_counterexample:
  "edge_between (prepareData ex_boundary) ex_iowa ex_florida
   \<and> \<not> (bpmSim_exact ex_iowa ex_florida * 0.3 + durationSim_exact ex_iowa ex_florida * 0.2
          + tropeSim_exact ex_iowa ex_florida * 0.2 + confSim_exact ex_iowa ex_florida) / 0.7 > 0.7
   \<and> score_exact ex_iowa ex_florida = 0.7
   \<and> calculateSimilarity ex_iowa ex_florida = 6305039478318695 / 2 ^ 53
   \<and> similarityThreshold = 6305039478318694 / 2 ^ 53"
proof -
  have d: "distinct (map school ex_boundary)"
    by (simp add: ex_boundary_def ex_iowa_def ex_florida_def)
  have n: "ex_boundary ! 0 = ex_iowa" "ex_boundary ! 1 = ex_florida" "length ex_boundary = 2"
    by (simp_all add: ex_boundary_def)
  have c: "calculateSimilarity ex_iowa ex_florida = 6305039478318695 / 2 ^ 53"
    by code_simp
  have t: "similarityThreshold = 6305039478318694 / 2 ^ 53"
    by code_simp
  have "calculateSimilarity ex_iowa ex_florida > similarityThreshold"
    unfolding c t by simp
  then have e: "edge_between (prepareData ex_boundary) ex_iowa ex_florida"
    using edge_between_iff [of ex_boundary 0 1] d unfolding n by simp
  have x: "score_exact ex_iowa ex_florida = 0.7"
    by (simp add: score_exact_def bpmSim_exact_def durationSim_exact_def tropeSim_exact_def
        confSim_exact_def ex_iowa_def ex_florida_def)
  have y: "\<not> (bpmSim_exact ex_iowa ex_florida * 0.3 + durationSim_exact ex_iowa ex_florida * 0.2
          + tropeSim_exact ex_iowa ex_florida * 0.2 + confSim_exact ex_iowa ex_florida) / 0.7 > 0.7"
    using x unfolding score_exact_def by simp
  show ?thesis by (intro conjI e y x c t)
qed

text \<open>
  Claim C5, amended. For two distinct schools of the list given to the network view (school
  names are the node identities and are distinct), \<open>prepareData\<close> creates an edge between
  them if and only if the score that \<open>calculateSimilarity\<close> computes in double arithmetic,
  every operation of (bpmSim*0.3 + durationSim*0.2 + tropeSim*0.2 + confSim)/0.7 rounded to
  the nearest double, exceeds the double nearest to 0.7. Each of the three difference terms
  is 1 minus the clipped, normalised difference, rounded likewise, and lies between 0 and
  1; confSim is the double nearest to 0.3 for a shared conference and 0 otherwise. The
  computed score is within \<open>2^-48\<close> of the exact value of the formula, so the edge exists
  whenever the exact score is at least \<open>0.7 + 2^-47\<close> and does not exist whenever it is at
  most \<open>0.7 - 2^-47\<close>.
\<close>

theorem edge_iff_similarity_above_threshold:
  assumes "distinct (map school ss)" "i < length ss" "j < length ss" "i \<noteq> j"
  shows "(edge_between (prepareData ss) (ss ! i) (ss ! j) \<longleftrightarrow>
            fdiv (fadd (fadd (fadd (fmul (bpmSim (ss ! i) (ss ! j)) (double 0.3))
                                       (fmul (durationSim (ss ! i) (ss ! j)) (double 0.2)))
                                 (fmul (tropeSim (ss ! i) (ss ! j)) (double 0.2)))
                           (confSim (ss ! i) (ss ! j)))
                     (double 0.7) > double 0.7)
         \<and> bpmSim (ss ! i) (ss ! j)
             = fsub 1 (min (fdiv \<bar>fsub (bpm (ss ! i)) (bpm (ss ! j))\<bar> 100) 1)
         \<and> durationSim (ss ! i) (ss ! j)
             = fsub 1 (min (fdiv \<bar>fsub (sec_duration (ss ! i)) (sec_duration (ss ! j))\<bar> 60) 1)
         \<and> tropeSim (ss ! i) (ss ! j)
             = fsub 1 (min (fdiv \<bar>fsub (real_of_int (trope_count (ss ! i)))
                                       (real_of_int (trope_count (ss ! j)))\<bar> 10) 1)
         \<and> 0 \<le> bpmSim (ss ! i) (ss ! j) \<and> bpmSim (ss ! i) (ss ! j) \<le> 1
         \<and> 0 \<le> durationSim (ss ! i) (ss ! j) \<and> durationSim (ss ! i) (ss ! j) \<le> 1
         \<and> 0 \<le> tropeSim (ss ! i) (ss ! j) \<and> tropeSim (ss ! i) (ss ! j) \<le> 1
         \<and> confSim (ss ! i) (ss ! j)
             = (if conference (ss ! i) = conference (ss ! j) then double 0.3 else 0)
         \<and> calculateSimilarity (ss ! i) (ss ! j)
             = fdiv (fadd (fadd (fadd (fmul (bpmSim (ss ! i) (ss ! j)) (double 0.3))
                                       (fmul (durationSim (ss ! i) (ss ! j)) (double 0.2)))
                                 (fmul (tropeSim (ss ! i) (ss ! j)) (double 0.2)))
                           (confSim (ss ! i) (ss ! j)))
                     (double 0.7)
         \<and> similarityThreshold = double 0.7
         \<and> double 0.3 = 5404319552844595 / 2 ^ 54
         \<and> double 0.2 = 3602879701896397 / 2 ^ 54
         \<and> double 0.7 = 3152519739159347 / 2 ^ 52
         \<and> score_exact (ss ! i) (ss ! j)
             = ((1 - min (\<bar>bpm (ss ! i) - bpm (ss ! j)\<bar> / 100) 1) * 0.3
                + (1 - min (\<bar>sec_duration (ss ! i) - sec_duration (ss ! j)\<bar> / 60) 1) * 0.2
                + (1 - min (\<bar>real_of_int (trope_count (ss ! i))
                              - real_of_int (trope_count (ss ! j))\<bar> / 10) 1) * 0.2
                + (if conference (ss ! i) = conference (ss ! j) then 0.3 else 0)) / 0.7
         \<and> \<bar>calculateSimilarity (ss ! i) (ss ! j) - score_exact (ss ! i) (ss ! j)\<bar> \<le> 1 / 2 ^ 48
         \<and> (0.7 + 1 / 2 ^ 47 \<le> score_exact (ss ! i) (ss ! j)
              \<longrightarrow> edge_between (prepareData ss) (ss ! i) (ss ! j))
         \<and> (score_exact (ss ! i) (ss ! j) \<le> 0.7 - 1 / 2 ^ 47
              \<longrightarrow> \<not> edge_between (prepareData ss) (ss ! i) (ss ! j))"
proof -
  have e: "edge_between (prepareData ss) (ss ! i) (ss ! j) \<longleftrightarrow>
        calculateSimilarity (ss ! i) (ss ! j) > similarityThreshold"
    using assms by (rule edge_between_iff)
  have err: "\<bar>calculateSimilarity (ss ! i) (ss ! j) - score_exact (ss ! i) (ss ! j)\<bar> \<le> 1 / 2 ^ 48"
    by (rule score_error)
  have above: "0.7 + 1 / 2 ^ 47 \<le> score_exact (ss ! i) (ss ! j)
              \<longrightarrow> edge_between (prepareData ss) (ss ! i) (ss ! j)"
    using err unfolding e similarityThreshold_def literals abs_le_iff by simp
  have below: "score_exact (ss ! i) (ss ! j) \<le> 0.7 - 1 / 2 ^ 47
              \<longrightarrow> \<not> edge_between (prepareData ss) (ss ! i) (ss ! j)"
    using err unfolding e similarityThreshold_def literals abs_le_iff by simp
  show ?thesis
  proof (intro conjI)
    show "\<bar>calculateSimilarity (ss ! i) (ss ! j) - score_exact (ss ! i) (ss ! j)\<bar> \<le> 1 / 2 ^ 48"
      by (rule err)
    show "0.7 + 1 / 2 ^ 47 \<le> score_exact (ss ! i) (ss ! j)
              \<longrightarrow> edge_between (prepareData ss) (ss ! i) (ss ! j)"
      by (rule above)
    show "score_exact (ss ! i) (ss ! j) \<le> 0.7 - 1 / 2 ^ 47
              \<longrightarrow> \<not> edge_between (prepareData ss) (ss ! i) (ss ! j)"
      by (rule below)
    show "score_exact (ss ! i) (ss ! j)
             = ((1 - min (\<bar>bpm (ss ! i) - bpm (ss ! j)\<bar> / 100) 1) * 0.3
                + (1 - min (\<bar>sec_duration (ss ! i) - sec_duration (ss ! j)\<bar> / 60) 1) * 0.2
                + (1 - min (\<bar>real_of_int (trope_count (ss ! i))
                              - real_of_int (trope_count (ss ! j))\<bar> / 10) 1) * 0.2
                + (if conference (ss ! i) = conference (ss ! j) then 0.3 else 0)) / 0.7"
      unfolding score_exact_def bpmSim_exact_def durationSim_exact_def tropeSim_exact_def
        confSim_exact_def ..
    show "edge_between (prepareData ss) (ss ! i) (ss ! j) \<longleftrightarrow>
            fdiv (fadd (fadd (fadd (fmul (bpmSim (ss ! i) (ss ! j)) (double 0.3))
                                       (fmul (durationSim (ss ! i) (ss ! j)) (double 0.2)))
                                 (fmul (tropeSim (ss ! i) (ss ! j)) (double 0.2)))
                           (confSim (ss ! i) (ss ! j)))
                     (double 0.7) > double 0.7"
      unfolding e calculateSimilarity_def similarityThreshold_def ..
  qed (simp_all only: bpmSim_def durationSim_def tropeSim_def bpmDiff_def durationDiff_def
        tropeDiff_def confSim_def calculateSimilarity_def similarityThreshold_def
        sim_bounds [unfolded bpmSim_def durationSim_def tropeSim_def bpmDiff_def durationDiff_def
        tropeDiff_def] literals)
qed

theorem edge_iff_similarity_above_threshold_witness:
  "distinct (map school ex_network)
   \<and> edge_between (prepareData ex_network) ex_indiana ex_purdue
   \<and> \<not> edge_between (prepareData ex_network) ex_alabama ex_purdue"
proof -
  have d: "distinct (map school ex_network)"
    by (simp add: ex_network_def ex_purdue_def ex_indiana_def ex_alabama_def)
  have n: "ex_network ! 0 = ex_purdue" "ex_network ! 1 = ex_indiana" "ex_network ! 2 = ex_alabama"
    "length ex_network = 3"
    by (simp_all add: ex_network_def)
  have near: "fdiv (fadd (fadd (fadd (fmul (bpmSim ex_indiana ex_purdue) (double 0.3))
                                       (fmul (durationSim ex_indiana ex_purdue) (double 0.2)))
                                 (fmul (tropeSim ex_indiana ex_purdue) (double 0.2)))
                           (confSim ex_indiana ex_purdue))
                     (double 0.7) > double 0.7"
    by code_simp
  have far: "\<not> fdiv (fadd (fadd (fadd (fmul (bpmSim ex_alabama ex_purdue) (double 0.3))
                                       (fmul (durationSim ex_alabama ex_purdue) (double 0.2)))
                                 (fmul (tropeSim ex_alabama ex_purdue) (double 0.2)))
                           (confSim ex_alabama ex_purdue))
                     (double 0.7) > double 0.7"
    by code_simp
  have e1: "edge_between (prepareData ex_network) ex_indiana ex_purdue"
    using edge_iff_similarity_above_threshold [of ex_network 1 0, THEN conjunct1] d near
    unfolding n by simp
  have e2: "\<not> edge_between (prepareData ex_network) ex_alabama ex_purdue"
    using edge_iff_similarity_above_threshold [of ex_network 2 0, THEN conjunct1] d far
    unfolding n by simp
  show ?thesis by (intro conjI d e1 e2)
qed

lemma top_score:
  "fdiv (fadd (fadd (fadd (fmul 1 (double 0.3)) (fmul 1 (double 0.2))) (fmul 1 (double 0.2)))
              (double 0.3)) (double 0.7) = 6433713753386423 / 2 ^ 52"
  "fdiv (fadd (fadd (fadd (double 0.3) (double 0.2)) (double 0.2)) (double 0.3)) (double 0.7)
     = 6433713753386423 / 2 ^ 52"
  "double (10 / 7) = 6433713753386423 / 2 ^ 52"
  by code_simp+

lemma calculateSimilarity_le: "calculateSimilarity x y \<le> 6433713753386423 / 2 ^ 52"
proof -
  have p: "0 \<le> double 0.3" "0 \<le> double 0.2" "0 \<le> double 0.7"
    by (simp_all add: double_nonneg)
  have c: "confSim x y \<le> double 0.3" using p(1) by (simp add: confSim_def)
  have "calculateSimilarity x y
        \<le> fdiv (fadd (fadd (fadd (fmul 1 (double 0.3)) (fmul 1 (double 0.2)))
                            (fmul 1 (double 0.2))) (double 0.3)) (double 0.7)"
    unfolding calculateSimilarity_def fdiv_def fadd_def fmul_def
    by (intro double_mono divide_right_mono add_mono mult_right_mono sim_bounds p c)
  then show ?thesis unfolding top_score .
qed

lemma score_exact_le: "score_exact x y \<le> 10 / 7"
proof -
  have "bpmSim_exact x y \<le> 1" "durationSim_exact x y \<le> 1" "tropeSim_exact x y \<le> 1"
    "confSim_exact x y \<le> 0.3"
    by (simp_all add: bpmSim_exact_def durationSim_exact_def tropeSim_exact_def confSim_exact_def)
  then have "bpmSim_exact x y * 0.3 + durationSim_exact x y * 0.2 + tropeSim_exact x y * 0.2
             + confSim_exact x y \<le> 1"
    by simp
  then show ?thesis
    by (simp add: score_exact_def divide_le_eq)
qed

lemma identical_sims:
  assumes "bpm a = bpm b" "sec_duration a = sec_duration b" "trope_count a = trope_count b"
  shows "bpmSim a b = 1" "durationSim a b = 1" "tropeSim a b = 1"
  using assms
  by (simp_all add: bpmSim_def durationSim_def tropeSim_def bpmDiff_def durationDiff_def
      tropeDiff_def fsub_def fdiv_def)

text \<open>
  Claim C6. Two records with identical bpm, sec_duration, trope_count and conference (in
  particular a record compared with itself) have all three difference terms equal to 1 and
  the conference bonus 0.3. In exact arithmetic their score is (0.3+0.2+0.2+0.3)/0.7 = 10/7,
  no pair of records scores higher, and the score exceeds the edge threshold 0.7. The code
  computes the same with doubles: the terms are exactly 1, the bonus is the double nearest
  to 0.3, the score is the double nearest to 10/7 (1.4285714285714286, within \<open>2^-53\<close> of
  10/7), no pair of records gets a higher computed score, and it exceeds the threshold.
\<close>

theorem identical_records_score_maximal:
  assumes "bpm a = bpm b" "sec_duration a = sec_duration b" "trope_count a = trope_count b"
    "conference a = conference b"
  shows "bpmSim_exact a b = 1 \<and> durationSim_exact a b = 1 \<and> tropeSim_exact a b = 1
         \<and> confSim_exact a b = 0.3
         \<and> score_exact a b = (0.3 + 0.2 + 0.2 + 0.3) / 0.7
         \<and> score_exact a b = 10 / 7
         \<and> score_exact a a = 10 / 7
         \<and> (\<forall>x y. score_exact x y \<le> score_exact a b)
         \<and> score_exact a b > 0.7
         \<and> bpmSim a b = 1 \<and> durationSim a b = 1 \<and> tropeSim a b = 1 \<and> confSim a b = double 0.3
         \<and> calculateSimilarity a b
             = fdiv (fadd (fadd (fadd (double 0.3) (double 0.2)) (double 0.2)) (double 0.3))
                    (double 0.7)
         \<and> calculateSimilarity a b = double (10 / 7)
         \<and> calculateSimilarity a a = double (10 / 7)
         \<and> calculateSimilarity a b = 6433713753386423 / 2 ^ 52
         \<and> \<bar>calculateSimilarity a b - 10 / 7\<bar> \<le> 1 / 2 ^ 53
         \<and> (\<forall>x y. calculateSimilarity x y \<le> calculateSimilarity a b)
         \<and> calculateSimilarity a b > similarityThreshold"
proof -
  have x1: "bpmSim_exact a b = 1" and x2: "durationSim_exact a b = 1"
    and x3: "tropeSim_exact a b = 1" and x4: "confSim_exact a b = 0.3"
    using assms
    by (simp_all add: bpmSim_exact_def durationSim_exact_def tropeSim_exact_def confSim_exact_def)
  have xab: "score_exact a b = 10 / 7"
    using x1 x2 x3 x4 by (simp add: score_exact_def)
  have xab': "score_exact a b = (0.3 + 0.2 + 0.2 + 0.3) / 0.7"
    using x1 x2 x3 x4 by (simp add: score_exact_def)
  have xaa: "score_exact a a = 10 / 7"
    by (simp add: score_exact_def bpmSim_exact_def durationSim_exact_def tropeSim_exact_def
        confSim_exact_def)
  have xmx: "\<forall>x y. score_exact x y \<le> score_exact a b"
    unfolding xab by (intro allI score_exact_le)
  have xthr: "score_exact a b > 0.7"
    unfolding xab by simp
  have s1: "bpmSim a b = 1" and s2: "durationSim a b = 1" and s3: "tropeSim a b = 1"
    using assms(1,2,3) by (rule identical_sims)+
  have s4: "confSim a b = double 0.3" using assms(4) by (simp add: confSim_def)
  have ab: "calculateSimilarity a b = 6433713753386423 / 2 ^ 52"
    unfolding calculateSimilarity_def s1 s2 s3 s4 by (rule top_score(1))
  have aa: "calculateSimilarity a a = 6433713753386423 / 2 ^ 52"
    unfolding calculateSimilarity_def identical_sims [of a a, OF refl refl refl] confSim_def
    using top_score(1) by simp
  have ab': "calculateSimilarity a b
             = fdiv (fadd (fadd (fadd (double 0.3) (double 0.2)) (double 0.2)) (double 0.3))
                    (double 0.7)"
    unfolding ab top_score(2) ..
  have abd: "calculateSimilarity a b = double (10 / 7)" unfolding ab top_score(3) ..
  have aad: "calculateSimilarity a a = double (10 / 7)" unfolding aa top_score(3) ..
  have err: "\<bar>calculateSimilarity a b - 10 / 7\<bar> \<le> 1 / 2 ^ 53"
    unfolding ab by simp
  have mx: "\<forall>x y. calculateSimilarity x y \<le> calculateSimilarity a b"
    unfolding ab by (intro allI calculateSimilarity_le)
  have thr: "calculateSimilarity a b > similarityThreshold"
    unfolding ab similarityThreshold_def literals by simp
  show ?thesis
    by (intro conjI x1 x2 x3 x4 xab' xab xaa xmx xthr s1 s2 s3 s4 ab' abd aad ab err mx thr)
qed

theorem identical_records_score_maximal_witness:
  "bpm ex_purdue = bpm ex_indiana \<and> sec_duration ex_purdue = sec_duration ex_indiana
   \<and> trope_count ex_purdue = trope_count ex_indiana \<and> conference ex_purdue = conference ex_indiana
   \<and> score_exact ex_purdue ex_indiana = 10 / 7
   \<and> score_exact ex_purdue ex_indiana > 0.7
   \<and> calculateSimilarity ex_purdue ex_indiana = 6433713753386423 / 2 ^ 52
   \<and> calculateSimilarity ex_purdue ex_indiana > similarityThreshold"
proof -
  have h: "bpm ex_purdue = bpm ex_indiana" "sec_duration ex_purdue = sec_duration ex_indiana"
    "trope_count ex_purdue = trope_count ex_indiana" "conference ex_purdue = conference ex_indiana"
    by (simp_all add: ex_purdue_def ex_indiana_def)
  note t = identical_records_score_maximal [OF h]
  show ?thesis
  proof (intro conjI h)
    show "score_exact ex_purdue ex_indiana = 10 / 7" using t by (elim conjE)
    show "score_exact ex_purdue ex_indiana > 0.7" using t by (elim conjE)
    show "calculateSimilarity ex_purdue ex_indiana = 6433713753386423 / 2 ^ 52"
      using t by (elim conjE)
    show "calculateSimilarity ex_purdue ex_indiana > similarityThreshold"
      using t by (elim conjE)
  qed
qed

section \<open>Marker radii\<close>

text \<open>
  Claim C9, as stated, fails: in the map view a school that is not the featured one and
  has trope count 5 gets radius 5 + 1.5*5 = 12.5, larger than the featured radius 12.
\<close>

theorem featured_marker_not_largest_counterexample:
  "\<not> isPurdue ex_ohio \<and> 0 \<le> trope_count ex_ohio \<and> isPurdue ex_purdue
   \<and> USAMap_getRadius ex_ohio = 12.5 \<and> USAMap_getRadius ex_purdue = 12
   \<and> USAMap_getRadius ex_purdue < USAMap_getRadius ex_ohio"
  by (simp add: ex_ohio_def ex_purdue_def isPurdue_def USAMap_getRadius_def getRadius_def
      USAMap_config_def)

text \<open>
  Claim C9, amended. For a non-featured school the marker radius is 5 + 1.5*trope_count in
  the map, 4 + 1*trope_count in the scatter plot and 6 + 1.2*trope_count in the hero map;
  the featured school's radius is the fixed 12, 10 and 29. The featured marker is strictly
  larger than a non-featured marker exactly when that school's trope count is at most 4
  (map), at most 5 (scatter) and at most 19 (hero map).
\<close>

theorem marker_radius_formula:
  assumes "\<not> isPurdue s" "isPurdue p"
  shows "USAMap_getRadius s = 5 + 1.5 * real_of_int (trope_count s)
         \<and> ScatterPlot_getRadius s = 4 + 1 * real_of_int (trope_count s)
         \<and> EnergyGalaxy_size s = 6 + 1.2 * real_of_int (trope_count s)
         \<and> USAMap_getRadius p = 12 \<and> ScatterPlot_getRadius p = 10 \<and> EnergyGalaxy_size p = 29
         \<and> (USAMap_getRadius s < USAMap_getRadius p \<longleftrightarrow> trope_count s \<le> 4)
         \<and> (ScatterPlot_getRadius s < ScatterPlot_getRadius p \<longleftrightarrow> trope_count s \<le> 5)
         \<and> (EnergyGalaxy_size s < EnergyGalaxy_size p \<longleftrightarrow> trope_count s \<le> 19)"
proof -
  have m: "5 + 1.5 * real_of_int t < 12 \<longleftrightarrow> t \<le> 4" for t :: int
  proof -
    have "5 + 1.5 * real_of_int t < 12 \<longleftrightarrow> real_of_int (3 * t) < real_of_int 14" by simp
    also have "\<dots> \<longleftrightarrow> 3 * t < 14" by (rule of_int_less_iff)
    also have "\<dots> \<longleftrightarrow> t \<le> 4" by presburger
    finally show ?thesis .
  qed
  have sc: "4 + 1 * real_of_int t < 10 \<longleftrightarrow> t \<le> 5" for t :: int
  proof -
    have "4 + 1 * real_of_int t < 10 \<longleftrightarrow> real_of_int t < real_of_int 6" by simp
    also have "\<dots> \<longleftrightarrow> t < 6" by (rule of_int_less_iff)
    also have "\<dots> \<longleftrightarrow> t \<le> 5" by presburger
    finally show ?thesis .
  qed
  have g: "6 + 1.2 * real_of_int t < 29 \<longleftrightarrow> t \<le> 19" for t :: int
  proof -
    have "6 + 1.2 * real_of_int t < 29 \<longleftrightarrow> real_of_int (6 * t) < real_of_int 115" by simp
    also have "\<dots> \<longleftrightarrow> 6 * t < 115" by (rule of_int_less_iff)
    also have "\<dots> \<longleftrightarrow> t \<le> 19" by presburger
    finally show ?thesis .
  qed
  have r1: "USAMap_getRadius s = 5 + 1.5 * real_of_int (trope_count s)"
    and r2: "ScatterPlot_getRadius s = 4 + 1 * real_of_int (trope_count s)"
    and r3: "EnergyGalaxy_size s = 6 + 1.2 * real_of_int (trope_count s)"
    using assms(1)
    by (simp_all add: USAMap_getRadius_def ScatterPlot_getRadius_def EnergyGalaxy_size_def
        getRadius_def USAMap_config_def ScatterPlot_config_def EnergyGalaxy_config_def)
  have p1: "USAMap_getRadius p = 12" and p2: "ScatterPlot_getRadius p = 10"
    and p3: "EnergyGalaxy_size p = 29"
    using assms(2)
    by (simp_all add: USAMap_getRadius_def ScatterPlot_getRadius_def EnergyGalaxy_size_def
        getRadius_def USAMap_config_def ScatterPlot_config_def EnergyGalaxy_config_def)
  have c1: "USAMap_getRadius s < USAMap_getRadius p \<longleftrightarrow> trope_count s \<le> 4"
    unfolding r1 p1 by (rule m)
  have c2: "ScatterPlot_getRadius s < ScatterPlot_getRadius p \<longleftrightarrow> trope_count s \<le> 5"
    unfolding r2 p2 by (rule sc)
  have c3: "EnergyGalaxy_size s < EnergyGalaxy_size p \<longleftrightarrow> trope_count s \<le> 19"
    unfolding r3 p3 by (rule g)
  show ?thesis
    by (intro conjI r1 r2 r3 p1 p2 p3 c1 c2 c3)
qed

theorem marker_radius_formula_witness:
  "\<not> isPurdue ex_alabama \<and> isPurdue ex_purdue
   \<and> USAMap_getRadius ex_alabama = 17 \<and> ScatterPlot_getRadius ex_alabama = 12
   \<and> EnergyGalaxy_size ex_alabama = 15.6
   \<and> \<not> USAMap_getRadius ex_alabama < USAMap_getRadius ex_purdue
   \<and> EnergyGalaxy_size ex_alabama < EnergyGalaxy_size ex_purdue"
  using marker_radius_formula [of ex_alabama ex_purdue]
  by (simp add: ex_alabama_def ex_purdue_def isPurdue_def)

section \<open>The conference filter\<close>

text \<open>
  Claim C7, as stated, fails for the featured school: with the filter set to SEC, the rose
  chart keeps the arc of Purdue (a Big Ten school) at opacity 1, while the arc of another
  Big Ten school is dimmed to 0.15.
\<close>

theorem featured_not_dimmed_counterexample:
  "conference ex_purdue = ''Big Ten'' \<and> conference ex_ohio = ''Big Ten''
   \<and> FightSongClock_filterByConference ''SEC'' ex_ohio = 0.15
   \<and> FightSongClock_filterByConference ''SEC'' ex_purdue = 1"
  by (simp add: FightSongClock_filterByConference_def ex_purdue_def ex_ohio_def isPurdue_def)

text \<open>
  Claim C7, amended. In the map, scatter, matrix and network views, every school element
  (the featured one included) is shown at the view's full opacity when the filter is
  'all' or equals the school's conference, and at the view's dimmed opacity otherwise. In
  the parallel-coordinates and rose-chart views the same holds for every element other
  than the featured one, which stays at its own fixed opacity (0.8 and 1) whatever the
  filter. In every view the dimmed opacity is lower than the full one. The hero map
  applies the rule, with 0.85 and 0.15, to every marker that is not hovered except the
  featured one, which its loop does not draw; the radar view applies it, with 1 and 0.4,
  to its conference charts. In the hero map a hovered marker that passes the filter is
  drawn at 1 instead of 0.85, and an empty filter value counts as 'all'.
\<close>

theorem conference_filter_opacity:
  "(featuredOpacity v = None \<or> \<not> isPurdue s \<longrightarrow>
      (F = ''all'' \<longrightarrow> filterByConference v F s = fullOpacity v)
      \<and> (F \<noteq> ''all'' \<and> conference s = F \<longrightarrow> filterByConference v F s = fullOpacity v)
      \<and> (F \<noteq> ''all'' \<and> conference s \<noteq> F \<longrightarrow> filterByConference v F s = dimmedOpacity v))
   \<and> (isPurdue s \<longrightarrow> filterByConference ParallelCoordinates F s = 0.8
                       \<and> filterByConference FightSongClock F s = 1)
   \<and> (featuredOpacity v = None \<longleftrightarrow> v \<in> {USAMap, ScatterPlot, TropeMatrix, NetworkGraph})
   \<and> dimmedOpacity v < fullOpacity v
   \<and> (\<not> isPurdue s \<and> F \<noteq> [] \<longrightarrow>
        EnergyGalaxy_drawMarkers F False s
          = Some (if F = ''all'' \<or> conference s = F then 0.85 else 0.15))
   \<and> (isPurdue s \<longrightarrow> EnergyGalaxy_drawMarkers F hovered s = None)
   \<and> RadarChart_listener F c = (if F = ''all'' \<or> c = F then 1 else 0.4)
   \<and> (\<not> isPurdue s \<and> F \<noteq> [] \<longrightarrow>
        EnergyGalaxy_drawMarkers F True s
          = Some (if F = ''all'' \<or> conference s = F then 1 else 0.15))
   \<and> (\<not> isPurdue s \<longrightarrow>
        EnergyGalaxy_drawMarkers [] hovered s = EnergyGalaxy_drawMarkers ''all'' hovered s)"
proof -
  have views: "(featuredOpacity v = None \<or> \<not> isPurdue s \<longrightarrow>
      (F = ''all'' \<longrightarrow> filterByConference v F s = fullOpacity v)
      \<and> (F \<noteq> ''all'' \<and> conference s = F \<longrightarrow> filterByConference v F s = fullOpacity v)
      \<and> (F \<noteq> ''all'' \<and> conference s \<noteq> F \<longrightarrow> filterByConference v F s = dimmedOpacity v))
   \<and> (isPurdue s \<longrightarrow> filterByConference ParallelCoordinates F s = 0.8
                       \<and> filterByConference FightSongClock F s = 1)
   \<and> (featuredOpacity v = None \<longleftrightarrow> v \<in> {USAMap, ScatterPlot, TropeMatrix, NetworkGraph})
   \<and> dimmedOpacity v < fullOpacity v"
    by (cases v)
      (simp_all add: USAMap_filterByConference_def ScatterPlot_filterByConference_def
        TropeMatrix_filterByConference_def NetworkGraph_filterByConference_def
        ParallelCoordinates_filterByConference_def FightSongClock_filterByConference_def
        lineOpacity_def)
  have hero: "\<not> isPurdue s \<and> F \<noteq> [] \<longrightarrow>
        EnergyGalaxy_drawMarkers F False s
          = Some (if F = ''all'' \<or> conference s = F then 0.85 else 0.15)"
    by (simp add: EnergyGalaxy_drawMarkers_def)
  have featured: "isPurdue s \<longrightarrow> EnergyGalaxy_drawMarkers F hovered s = None"
    by (simp add: EnergyGalaxy_drawMarkers_def)
  have radar: "RadarChart_listener F c = (if F = ''all'' \<or> c = F then 1 else 0.4)"
    by (simp add: RadarChart_listener_def)
  have hover: "\<not> isPurdue s \<and> F \<noteq> [] \<longrightarrow>
        EnergyGalaxy_drawMarkers F True s
          = Some (if F = ''all'' \<or> conference s = F then 1 else 0.15)"
    by (simp add: EnergyGalaxy_drawMarkers_def)
  have unset: "\<not> isPurdue s \<longrightarrow>
        EnergyGalaxy_drawMarkers [] hovered s = EnergyGalaxy_drawMarkers ''all'' hovered s"
    by (simp add: EnergyGalaxy_drawMarkers_def)
  show ?thesis
    by (intro conjI views [THEN conjunct1] views [THEN conjunct2, THEN conjunct1]
        views [THEN conjunct2, THEN conjunct2, THEN conjunct1]
        views [THEN conjunct2, THEN conjunct2, THEN conjunct2] hero featured radar hover unset)
qed

theorem conference_filter_opacity_witness:
  "featuredOpacity USAMap = None
   \<and> filterByConference USAMap ''all'' ex_purdue = 1
   \<and> filterByConference USAMap ''Big Ten'' ex_purdue = 1
   \<and> filterByConference USAMap ''SEC'' ex_purdue = 0.15
   \<and> \<not> isPurdue ex_alabama
   \<and> filterByConference FightSongClock ''SEC'' ex_alabama = 0.75
   \<and> filterByConference FightSongClock ''ACC'' ex_alabama = 0.15"
  using conference_filter_opacity [where v = USAMap and s = ex_purdue and F = "''all''"]
    conference_filter_opacity [where v = USAMap and s = ex_purdue and F = "''Big Ten''"]
    conference_filter_opacity [where v = USAMap and s = ex_purdue and F = "''SEC''"]
    conference_filter_opacity [where v = FightSongClock and s = ex_alabama and F = "''SEC''"]
    conference_filter_opacity [where v = FightSongClock and s = ex_alabama and F = "''ACC''"]
  by (simp add: ex_purdue_def ex_alabama_def isPurdue_def)

section \<open>Sorting the schools\<close>

lemma set_insert_js: "set (insert_js cmp x es) = insert x (set es)"
  by (induction es) auto

lemma mset_insert_js: "mset (insert_js cmp x es) = add_mset x (mset es)"
  by (induction es) auto

lemma sorted_insert_js:
  assumes trans: "\<And>a b c. le a b \<Longrightarrow> le b c \<Longrightarrow> le a c"
    and total: "\<And>a b. le a b \<or> le b a"
    and cmp: "\<And>a b. cmp a b < 0 \<longleftrightarrow> \<not> le b a"
  shows "sorted_wrt le es \<Longrightarrow> sorted_wrt le (insert_js cmp x es)"
proof (induction es)
  case Nil
  show ?case by simp
next
  case (Cons e es)
  show ?case
  proof (cases "cmp x e < 0")
    case True
    then have xe: "le x e" using cmp total by blast
    then have "\<forall>y \<in> set es. le x y" using Cons.prems trans by auto
    then show ?thesis using True xe Cons.prems by simp
  next
    case False
    then have "le e x" using cmp by blast
    then show ?thesis using False Cons by (auto simp: set_insert_js)
  qed
qed

lemma foldl_insert_js_mset:
  "mset (foldl (\<lambda>placed x. insert_js cmp x placed) acc xs) = mset acc + mset xs"
  by (induction xs arbitrary: acc) (simp_all add: mset_insert_js)

lemma foldl_insert_js_sorted:
  assumes trans: "\<And>a b c. le a b \<Longrightarrow> le b c \<Longrightarrow> le a c"
    and total: "\<And>a b. le a b \<or> le b a"
    and cmp: "\<And>a b. cmp a b < 0 \<longleftrightarrow> \<not> le b a"
  shows "sorted_wrt le acc \<Longrightarrow> sorted_wrt le (foldl (\<lambda>placed x. insert_js cmp x placed) acc xs)"
proof (induction xs arbitrary: acc)
  case Nil
  then show ?case by simp
next
  case (Cons x xs)
  have "sorted_wrt le (insert_js cmp x acc)"
    using trans total cmp Cons.prems by (rule sorted_insert_js)
  then show ?case using Cons.IH by simp
qed

lemma mset_sort_js: "mset (sort_js cmp xs) = mset xs"
  by (simp add: sort_js_def foldl_insert_js_mset)

lemma sorted_sort_js:
  assumes "\<And>a b c. le a b \<Longrightarrow> le b c \<Longrightarrow> le a c"
    and "\<And>a b. le a b \<or> le b a"
    and "\<And>a b. cmp a b < 0 \<longleftrightarrow> \<not> le b a"
  shows "sorted_wrt le (sort_js cmp xs)"
proof -
  have e: "sorted_wrt le ([] :: 'a list)" by simp
  show ?thesis
    unfolding sort_js_def by (rule foldl_insert_js_sorted [where le = le, OF assms e])
qed

lemma sort_js_bpm: "sorted_wrt (\<lambda>a b. bpm a \<ge> bpm b) (sort_js compare_bpm xs)"
  by (rule sorted_sort_js) (auto simp: compare_bpm_def)

lemma sort_js_year: "sorted_wrt year_le (sort_js compare_year xs)"
  by (rule sorted_sort_js) (auto simp: compare_year_def year_le_def split: option.splits)

lemma sortSchools_bpm:
  "a < length h \<Longrightarrow> sortSchools lc h a ''bpm'' = (length h, h @ [sort_js compare_bpm (h ! a)])"
  by (simp add: sortSchools_def spread_def array_sort_def nth_append)

lemma sortSchools_year:
  "a < length h \<Longrightarrow> sortSchools lc h a ''year'' = (length h, h @ [sort_js compare_year (h ! a)])"
  by (simp add: sortSchools_def spread_def array_sort_def nth_append)

text \<open>
  Claim C8. After the matrix is resorted by 'bpm', its columns, read from left to right,
  are the schools of the matrix in non-increasing tempo order: every column's school has a
  bpm greater than or equal to that of the column to its right.
\<close>

theorem resort_bpm_non_increasing:
  assumes "schools m < length h"
  shows "case resort lc h m ''bpm'' of (m', h') \<Rightarrow>
           sorted_wrt (\<lambda>a b. bpm a \<ge> bpm b) (columns h' m')
           \<and> (\<forall>i. Suc i < length (columns h' m') \<longrightarrow>
                  bpm (columns h' m' ! i) \<ge> bpm (columns h' m' ! Suc i))
           \<and> mset (columns h' m') = mset (h ! schools m)
           \<and> currentSort m' = ''bpm''"
proof -
  let ?ys = "sort_js compare_bpm (h ! schools m)"
  have r: "resort lc h m ''bpm'' = (m\<lparr>currentSort := ''bpm'', sortedSchools := length h\<rparr>, h @ [?ys])"
    using assms by (simp add: resort_def sortSchools_bpm)
  have s: "sorted_wrt (\<lambda>a b. bpm a \<ge> bpm b) ?ys" by (rule sort_js_bpm)
  then have adj: "\<forall>i. Suc i < length ?ys \<longrightarrow> bpm (?ys ! i) \<ge> bpm (?ys ! Suc i)"
    by (simp add: sorted_wrt_iff_nth_less)
  show ?thesis
    using s adj by (simp add: r columns_def mset_sort_js)
qed

theorem resort_bpm_non_increasing_witness:
  "schools ex_matrix < length ex_heap
   \<and> (case resort (\<lambda>a b. 0) ex_heap ex_matrix ''bpm'' of (m', h') \<Rightarrow>
           sorted_wrt (\<lambda>a b. bpm a \<ge> bpm b) (columns h' m')
           \<and> (\<forall>i. Suc i < length (columns h' m') \<longrightarrow>
                  bpm (columns h' m' ! i) \<ge> bpm (columns h' m' ! Suc i))
           \<and> mset (columns h' m') = mset (ex_heap ! schools ex_matrix)
           \<and> currentSort m' = ''bpm'')"
proof -
  have h: "schools ex_matrix < length ex_heap"
    by (simp add: ex_matrix_def ex_heap_def)
  from h resort_bpm_non_increasing [OF h, of "\<lambda>a b. 0"] show ?thesis
    by (rule conjI)
qed

text \<open>
  Claim C10. \<open>sortSchools(schools, 'year')\<close> returns a newly allocated array and leaves
  every array that existed before, the input included, as it was. The new array holds the
  same records; every record whose year is null comes after every record with a year,
  and the years that are present appear in non-decreasing order.
\<close>

theorem sortSchools_year_nulls_last:
  assumes "a < length h"
  shows "case sortSchools lc h a ''year'' of (r, h') \<Rightarrow>
           r \<noteq> a \<and> r < length h' \<and> (\<forall>b < length h. h' ! b = h ! b)
           \<and> mset (h' ! r) = mset (h ! a)
           \<and> (\<forall>i j. i < length (h' ! r) \<and> j < length (h' ! r)
                     \<and> year (h' ! r ! i) = None \<and> year (h' ! r ! j) \<noteq> None \<longrightarrow> j < i)
           \<and> sorted (List.map_filter year (h' ! r))"
proof -
  let ?ys = "sort_js compare_year (h ! a)"
  have s: "sorted_wrt year_le ?ys" by (rule sort_js_year)
  have nulls: "\<forall>i j. i < length ?ys \<and> j < length ?ys \<and> year (?ys ! i) = None \<and> year (?ys ! j) \<noteq> None \<longrightarrow> j < i"
  proof (intro allI impI)
    fix i j
    assume h: "i < length ?ys \<and> j < length ?ys \<and> year (?ys ! i) = None \<and> year (?ys ! j) \<noteq> None"
    show "j < i"
    proof (rule ccontr)
      assume "\<not> j < i"
      moreover have "i \<noteq> j" using h by auto
      ultimately have "i < j" by simp
      then have "year_le (?ys ! i) (?ys ! j)" using s h by (simp add: sorted_wrt_iff_nth_less)
      then show False using h by (auto simp: year_le_def split: option.splits)
    qed
  qed
  have "sorted_wrt year_le (filter (\<lambda>x. year x \<noteq> None) ?ys)"
    using s by (rule sorted_wrt_filter)
  then have "sorted_wrt (\<lambda>x y. x \<le> y) (map (the \<circ> year) (filter (\<lambda>x. year x \<noteq> None) ?ys))"
    unfolding sorted_wrt_map
    by (rule sorted_wrt_mono_rel [rotated]) (auto simp: year_le_def split: option.splits)
  then have srt: "sorted (List.map_filter year ?ys)"
    by (simp add: List.map_filter_def)
  show ?thesis
    using assms nulls srt by (simp add: sortSchools_year mset_sort_js nth_append)
qed

theorem sortSchools_year_nulls_last_witness:
  "(0 :: nat) < length ex_heap
   \<and> (case sortSchools (\<lambda>a b. 0) ex_heap 0 ''year'' of (r, h') \<Rightarrow>
         r = 1 \<and> h' ! 0 = ex_schools
         \<and> map school (h' ! r) = [''Purdue'', ''Alabama'', ''Ohio State'', ''Indiana''])"
  using sortSchools_year_nulls_last [of 0 ex_heap "\<lambda>a b. 0"]
  by (simp add: ex_heap_def ex_schools_def sortSchools_def spread_def array_sort_def sort_js_def
      compare_year_def ex_purdue_def ex_ohio_def ex_alabama_def ex_indiana_def)

end
